theory Spec2Isabelle
  imports Main "HOL-Library.Char_ord" "HOL-Library.List_Lexorder"
    "HOL-Library.Product_Lexorder" "HOL-Library.Multiset"
begin

section \<open>Text: characters and strings\<close>

text \<open>
  A Python \<open>str\<close> is a sequence of code points. The model takes texts whose code points
  are below 256, so a character is a \<^typ>\<open>char\<close> and a text is a \<^typ>\<open>string\<close>.
  The classes below are those of Python's \<open>str.isspace\<close> (the pattern class of
  white space is the same), of the pattern classes for word characters and digits, and
  \<open>str.lower\<close>, on that range.
\<close>

definition is_space :: "char \<Rightarrow> bool" where
  "is_space c = ((CHR 0x09 \<le> c \<and> c \<le> CHR 0x0D) \<or> (CHR 0x1C \<le> c \<and> c \<le> CHR 0x20)
     \<or> c = CHR 0x85 \<or> c = CHR 0xA0)"

definition is_digit :: "char \<Rightarrow> bool" where
  "is_digit c = (CHR ''0'' \<le> c \<and> c \<le> CHR ''9'')"

definition is_upper_az :: "char \<Rightarrow> bool" where
  "is_upper_az c = (CHR ''A'' \<le> c \<and> c \<le> CHR ''Z'')"

definition is_lower_az :: "char \<Rightarrow> bool" where
  "is_lower_az c = (CHR ''a'' \<le> c \<and> c \<le> CHR ''z'')"

definition is_word :: "char \<Rightarrow> bool" where
  "is_word c = (is_digit c \<or> is_upper_az c \<or> is_lower_az c \<or> c = CHR ''_''
     \<or> c = CHR 0xAA \<or> c = CHR 0xB2 \<or> c = CHR 0xB3 \<or> c = CHR 0xB5 \<or> c = CHR 0xB9
     \<or> c = CHR 0xBA \<or> (CHR 0xBC \<le> c \<and> c \<le> CHR 0xBE)
     \<or> (CHR 0xC0 \<le> c \<and> c \<noteq> CHR 0xD7 \<and> c \<noteq> CHR 0xF7))"

definition lower_char :: "char \<Rightarrow> char" where
  "lower_char c = (if is_upper_az c \<or> (CHR 0xC0 \<le> c \<and> c \<le> CHR 0xDE \<and> c \<noteq> CHR 0xD7)
     then char_of (of_char c + (32::nat)) else c)"

text \<open>
  The upper-case partner used by case-insensitive set matching. The partners of
  \<open>0xB5\<close> and \<open>0xFF\<close> lie above 255; they are word characters outside every range
  the patterns name, like \<open>0xB5\<close> and \<open>0xFF\<close> themselves, which stand in for them.
\<close>

definition upper_char :: "char \<Rightarrow> char" where
  "upper_char c = (if is_lower_az c \<or> (CHR 0xE0 \<le> c \<and> c \<le> CHR 0xFE \<and> c \<noteq> CHR 0xF7)
     then char_of (of_char c - (32::nat)) else c)"

definition lower :: "string \<Rightarrow> string" where
  "lower s = map lower_char s"

definition lstrip :: "string \<Rightarrow> string" where
  "lstrip s = dropWhile is_space s"

definition rstrip :: "string \<Rightarrow> string" where
  "rstrip s = rev (dropWhile is_space (rev s))"

definition strip :: "string \<Rightarrow> string" where
  "strip s = rstrip (lstrip s)"

text \<open>\<open>s.rstrip(".")\<close>: every trailing period goes.\<close>

definition rstrip_dot :: "string \<Rightarrow> string" where
  "rstrip_dot s = rev (dropWhile (\<lambda>c. c = CHR ''.'') (rev s))"

text \<open>
  \<open>str.splitlines\<close>: a line ends at \<open>\n\<close>, \<open>\r\<close>, \<open>\r\n\<close>, \<open>\v\<close>, \<open>\f\<close>,
  \<open>0x1C\<close>, \<open>0x1D\<close>, \<open>0x1E\<close> or \<open>0x85\<close>; no empty last line.
\<close>

definition is_linebreak :: "char \<Rightarrow> bool" where
  "is_linebreak c = ((CHR 0x0A \<le> c \<and> c \<le> CHR 0x0D) \<or> (CHR 0x1C \<le> c \<and> c \<le> CHR 0x1E)
     \<or> c = CHR 0x85)"

fun splitlines_acc :: "string \<Rightarrow> string \<Rightarrow> string list" where
  "splitlines_acc acc [] = (if acc = [] then [] else [rev acc])"
| "splitlines_acc acc (c # cs) =
     (if c = CHR 0x0D then
        (case cs of
           d # ds \<Rightarrow> if d = CHR 0x0A then rev acc # splitlines_acc [] ds
                     else rev acc # splitlines_acc [] cs
         | [] \<Rightarrow> rev acc # splitlines_acc [] cs)
      else if is_linebreak c then rev acc # splitlines_acc [] cs
      else splitlines_acc (c # acc) cs)"

definition splitlines :: "string \<Rightarrow> string list" where
  "splitlines s = splitlines_acc [] s"

section \<open>Regular expressions as Python's \<open>re\<close> matches them\<close>

text \<open>
  The patterns of the parser are written as values of \<open>regex\<close>; \<open>matches\<close> lists every
  way a pattern can match at a position, in the order a backtracking matcher tries them
  (greedy repetition, left alternative first). The first entry is the match Python finds.
  Every repetition in the parser's patterns is over a single character.
\<close>

datatype cset = CChar char | CRange char char | CSpace | CWord | CDigit

datatype atom = Lit char | In "cset list" | NotIn "cset list" | Dot

datatype regex =
    Eps
  | A atom
  | Seq regex regex
  | Alt regex regex
  | Opt regex
  | Rep atom nat "nat option"
  | Grp nat regex
  | Bol
  | Eol
  | WordB

fun cset_ok :: "cset \<Rightarrow> char \<Rightarrow> bool" where
  "cset_ok (CChar d) c = (c = d)"
| "cset_ok (CRange lo hi) c = (lo \<le> c \<and> c \<le> hi)"
| "cset_ok CSpace c = is_space c"
| "cset_ok CWord c = is_word c"
| "cset_ok CDigit c = is_digit c"

definition in_sets :: "cset list \<Rightarrow> char \<Rightarrow> bool" where
  "in_sets cs c = list_ex (\<lambda>s. cset_ok s c) cs"

text \<open>\<open>ic\<close> is the flag \<open>re.IGNORECASE\<close>.\<close>

fun atom_ok :: "bool \<Rightarrow> atom \<Rightarrow> char \<Rightarrow> bool" where
  "atom_ok ic (Lit l) c = (if ic then lower_char c = lower_char l else c = l)"
| "atom_ok ic (In cs) c =
     (if ic then in_sets cs (lower_char c) \<or> in_sets cs (upper_char (lower_char c))
      else in_sets cs c)"
| "atom_ok ic (NotIn cs) c =
     (if ic then \<not> in_sets cs (lower_char c) \<or> \<not> in_sets cs (upper_char (lower_char c))
      else \<not> in_sets cs c)"
| "atom_ok ic Dot c = (c \<noteq> CHR 0x0A)"

text \<open>
  A position is the character before it (\<open>None\<close> at the start of the text) and the text
  from it on. Captures are kept newest first.
\<close>

type_synonym pos = "char option \<times> string"
type_synonym caps = "(nat \<times> string) list"

definition advance :: "nat \<Rightarrow> pos \<Rightarrow> pos" where
  "advance k p = (if k = 0 then p else (Some (snd p ! (k - 1)), drop k (snd p)))"

definition word_before :: "pos \<Rightarrow> bool" where
  "word_before p = (case fst p of None \<Rightarrow> False | Some c \<Rightarrow> is_word c)"

definition word_after :: "pos \<Rightarrow> bool" where
  "word_after p = (case snd p of [] \<Rightarrow> False | c # _ \<Rightarrow> is_word c)"

fun matches :: "bool \<Rightarrow> regex \<Rightarrow> pos \<Rightarrow> caps \<Rightarrow> (pos \<times> caps) list" where
  "matches ic Eps p c = [(p, c)]"
| "matches ic (A a) p c =
     (case snd p of [] \<Rightarrow> [] | x # xs \<Rightarrow> if atom_ok ic a x then [((Some x, xs), c)] else [])"
| "matches ic (Seq r1 r2) p c =
     concat (map (\<lambda>(q, c'). matches ic r2 q c') (matches ic r1 p c))"
| "matches ic (Alt r1 r2) p c = matches ic r1 p c @ matches ic r2 p c"
| "matches ic (Opt r) p c = matches ic r p c @ [(p, c)]"
| "matches ic (Rep a lo hi) p c =
     (let n = length (takeWhile (atom_ok ic a) (snd p));
          m = (case hi of None \<Rightarrow> n | Some h \<Rightarrow> min h n)
      in map (\<lambda>k. (advance k p, c)) (rev [lo ..< Suc m]))"
| "matches ic (Grp n r) p c =
     map (\<lambda>(q, c'). (q, (n, take (length (snd p) - length (snd q)) (snd p)) # c'))
       (matches ic r p c)"
| "matches ic Bol p c = (if fst p = None then [(p, c)] else [])"
| "matches ic Eol p c = (if snd p = [] \<or> snd p = [CHR 0x0A] then [(p, c)] else [])"
| "matches ic WordB p c = (if word_before p \<noteq> word_after p then [(p, c)] else [])"

definition str :: "string \<Rightarrow> regex" where
  "str s = foldr (\<lambda>c r. Seq (A (Lit c)) r) s Eps"

definition seqs :: "regex list \<Rightarrow> regex" where
  "seqs rs = foldr Seq rs Eps"

fun alts :: "regex list \<Rightarrow> regex" where
  "alts [] = Eps"
| "alts [r] = r"
| "alts (r # rs) = Alt r (alts rs)"

text \<open>
  A match object: the text before the match, the matched text (group 0), the text after
  it, and the captures.
\<close>

record rmatch =
  m_pre :: string
  m_text :: string
  m_post :: string
  m_caps :: caps

definition group :: "rmatch \<Rightarrow> nat \<Rightarrow> string option" where
  "group m n = map_of (m_caps m) n"

text \<open>\<open>m.group(n) or ""\<close>, and the plain \<open>m.group(n)\<close> of a group that took part.\<close>

definition group_str :: "rmatch \<Rightarrow> nat \<Rightarrow> string" where
  "group_str m n = (case group m n of None \<Rightarrow> [] | Some s \<Rightarrow> s)"

definition match_at :: "bool \<Rightarrow> regex \<Rightarrow> pos \<Rightarrow> (string \<times> string \<times> caps) option" where
  "match_at ic r p =
     (case matches ic r p [] of
        [] \<Rightarrow> None
      | (q, c) # _ \<Rightarrow> Some (take (length (snd p) - length (snd q)) (snd p), snd q, c))"

text \<open>\<open>pattern.match(s)\<close>: at the start only.\<close>

definition re_match :: "bool \<Rightarrow> regex \<Rightarrow> string \<Rightarrow> rmatch option" where
  "re_match ic r s =
     (case match_at ic r (None, s) of
        None \<Rightarrow> None
      | Some (t, rest, c) \<Rightarrow> Some \<lparr>m_pre = [], m_text = t, m_post = rest, m_caps = c\<rparr>)"

text \<open>\<open>re.fullmatch\<close>: the first way to match that ends at the end of the text.\<close>

definition re_fullmatch :: "bool \<Rightarrow> regex \<Rightarrow> string \<Rightarrow> rmatch option" where
  "re_fullmatch ic r s =
     (case filter (\<lambda>(q, c). snd q = []) (matches ic r (None, s) []) of
        [] \<Rightarrow> None
      | (q, c) # _ \<Rightarrow> Some \<lparr>m_pre = [], m_text = s, m_post = [], m_caps = c\<rparr>)"

text \<open>\<open>re.search\<close>: the leftmost position with a match.\<close>

fun search_from :: "bool \<Rightarrow> regex \<Rightarrow> char option \<Rightarrow> string \<Rightarrow> rmatch option" where
  "search_from ic r b [] =
     (case match_at ic r (b, []) of
        None \<Rightarrow> None
      | Some (t, rest, c) \<Rightarrow> Some \<lparr>m_pre = [], m_text = t, m_post = rest, m_caps = c\<rparr>)"
| "search_from ic r b (x # xs) =
     (case match_at ic r (b, x # xs) of
        Some (t, rest, c) \<Rightarrow> Some \<lparr>m_pre = [], m_text = t, m_post = rest, m_caps = c\<rparr>
      | None \<Rightarrow>
          (case search_from ic r (Some x) xs of
             None \<Rightarrow> None
           | Some m \<Rightarrow> Some (m\<lparr>m_pre := x # m_pre m\<rparr>)))"

definition re_search :: "bool \<Rightarrow> regex \<Rightarrow> string \<Rightarrow> rmatch option" where
  "re_search ic r s = search_from ic r None s"

text \<open>
  \<open>re.sub\<close> with a constant replacement: scan from the left, replace each match and go
  on after it. \<open>k\<close> counts the characters of the current match still to skip.
\<close>

fun sub_from :: "bool \<Rightarrow> regex \<Rightarrow> string \<Rightarrow> nat \<Rightarrow> char option \<Rightarrow> string \<Rightarrow> string" where
  "sub_from ic r rep k b [] =
     (case match_at ic r (b, []) of None \<Rightarrow> [] | Some _ \<Rightarrow> rep)"
| "sub_from ic r rep (Suc k) b (x # xs) = sub_from ic r rep k (Some x) xs"
| "sub_from ic r rep 0 b (x # xs) =
     (case match_at ic r (b, x # xs) of
        None \<Rightarrow> x # sub_from ic r rep 0 (Some x) xs
      | Some (t, rest, c) \<Rightarrow>
          if t = [] then rep @ x # sub_from ic r rep 0 (Some x) xs
          else rep @ sub_from ic r rep (length t - 1) (Some x) xs)"

definition re_sub :: "bool \<Rightarrow> regex \<Rightarrow> string \<Rightarrow> string \<Rightarrow> string" where
  "re_sub ic r rep s = sub_from ic r rep 0 None s"

section \<open>Dates\<close>

text \<open>
  \<open>datetime.date\<close>: a valid date of the proleptic Gregorian calendar with a year from
  1 to 9999. \<open>mk_date\<close> is the constructor \<open>date(year, month, day)\<close>, with \<open>None\<close> for
  its \<open>ValueError\<close>.
\<close>

record date =
  d_year :: nat
  d_month :: nat
  d_day :: nat

definition is_leap :: "nat \<Rightarrow> bool" where
  "is_leap y = (y mod 4 = 0 \<and> (y mod 100 \<noteq> 0 \<or> y mod 400 = 0))"

definition days_in_month :: "nat \<Rightarrow> nat \<Rightarrow> nat" where
  "days_in_month y m =
     (if m = 2 then (if is_leap y then 29 else 28)
      else if m = 4 \<or> m = 6 \<or> m = 9 \<or> m = 11 then 30 else 31)"

definition valid_ymd :: "nat \<Rightarrow> nat \<Rightarrow> nat \<Rightarrow> bool" where
  "valid_ymd y m d =
     (1 \<le> y \<and> y \<le> 9999 \<and> 1 \<le> m \<and> m \<le> 12 \<and> 1 \<le> d \<and> d \<le> days_in_month y m)"

definition valid_date :: "date \<Rightarrow> bool" where
  "valid_date dt = valid_ymd (d_year dt) (d_month dt) (d_day dt)"

definition mk_date :: "nat \<Rightarrow> nat \<Rightarrow> nat \<Rightarrow> date option" where
  "mk_date y m d =
     (if valid_ymd y m d then Some \<lparr>d_year = y, d_month = m, d_day = d\<rparr> else None)"

text \<open>\<open>date.toordinal\<close> and \<open>date.weekday\<close> (Monday is 0).\<close>

definition days_before_year :: "nat \<Rightarrow> int" where
  "days_before_year y =
     (let p = int y - 1 in p * 365 + p div 4 - p div 100 + p div 400)"

definition days_before_month :: "nat \<Rightarrow> nat \<Rightarrow> int" where
  "days_before_month y m = int (sum_list (map (days_in_month y) [1 ..< m]))"

definition toordinal :: "date \<Rightarrow> int" where
  "toordinal dt =
     days_before_year (d_year dt) + days_before_month (d_year dt) (d_month dt) + int (d_day dt)"

definition weekday :: "date \<Rightarrow> nat" where
  "weekday dt = nat ((toordinal dt + 6) mod 7)"

text \<open>
  \<open>date + timedelta(days=n)\<close> for \<open>n \<ge> 0\<close>: the date \<open>n\<close> days later, with \<open>None\<close> for the
  \<open>OverflowError\<close> raised past 9999-12-31.
\<close>

definition next_day :: "date \<Rightarrow> date" where
  "next_day dt =
     (if d_day dt < days_in_month (d_year dt) (d_month dt) then dt\<lparr>d_day := d_day dt + 1\<rparr>
      else if d_month dt < 12 then dt\<lparr>d_month := d_month dt + 1, d_day := 1\<rparr>
      else \<lparr>d_year = d_year dt + 1, d_month = 1, d_day = 1\<rparr>)"

fun add_days :: "nat \<Rightarrow> date \<Rightarrow> date option" where
  "add_days 0 dt = Some dt"
| "add_days (Suc n) dt =
     (let nd = next_day dt in if 9999 < d_year nd then None else add_days n nd)"

text \<open>
  \<open>date.isoformat\<close>: \<open>%04d-%02d-%02d\<close>, for the values a date holds.
\<close>

definition digit_char :: "nat \<Rightarrow> char" where
  "digit_char n = char_of (48 + n mod 10)"

definition dec2 :: "nat \<Rightarrow> string" where
  "dec2 n = [digit_char (n div 10), digit_char n]"

definition dec4 :: "nat \<Rightarrow> string" where
  "dec4 n = [digit_char (n div 1000), digit_char (n div 100), digit_char (n div 10), digit_char n]"

definition isoformat :: "date \<Rightarrow> string" where
  "isoformat dt = dec4 (d_year dt) @ ''-'' @ dec2 (d_month dt) @ ''-'' @ dec2 (d_day dt)"

text \<open>\<open>int(s)\<close> on a text of decimal digits.\<close>

definition digit_val :: "char \<Rightarrow> nat" where
  "digit_val c = of_char c - 48"

definition int_of_digits :: "string \<Rightarrow> nat" where
  "int_of_digits s = foldl (\<lambda>n c. 10 * n + digit_val c) 0 s"

text \<open>
  \<open>date.fromisoformat\<close> on the format \<open>YYYY-MM-DD\<close>, with \<open>None\<close> for its
  \<open>ValueError\<close>. (From Python 3.11 on it also reads \<open>YYYYMMDD\<close> and ISO week dates,
  which are left out here.)
\<close>

definition fromisoformat :: "string \<Rightarrow> date option" where
  "fromisoformat s =
     (if length s = 10 \<and> s ! 4 = CHR ''-'' \<and> s ! 7 = CHR ''-''
         \<and> list_all is_digit (take 4 s) \<and> list_all is_digit (take 2 (drop 5 s))
         \<and> list_all is_digit (drop 8 s)
      then mk_date (int_of_digits (take 4 s)) (int_of_digits (take 2 (drop 5 s)))
             (int_of_digits (drop 8 s))
      else None)"

section \<open>The parser's tables\<close>

definition MONTH_NAMES :: "string \<rightharpoonup> nat" where
  "MONTH_NAMES = map_of
     [(''jan'', 1), (''january'', 1),
      (''feb'', 2), (''february'', 2),
      (''mar'', 3), (''march'', 3),
      (''apr'', 4), (''april'', 4),
      (''may'', 5),
      (''jun'', 6), (''june'', 6),
      (''jul'', 7), (''july'', 7),
      (''aug'', 8), (''august'', 8),
      (''sep'', 9), (''sept'', 9), (''september'', 9),
      (''oct'', 10), (''october'', 10),
      (''nov'', 11), (''november'', 11),
      (''dec'', 12), (''december'', 12)]"

definition DAY_NAMES :: "string \<rightharpoonup> nat" where
  "DAY_NAMES = map_of
     [(''monday'', 0), (''mon'', 0),
      (''tuesday'', 1), (''tue'', 1), (''tues'', 1),
      (''wednesday'', 2), (''wed'', 2),
      (''thursday'', 3), (''thu'', 3), (''thurs'', 3), (''thur'', 3),
      (''friday'', 4), (''fri'', 4),
      (''saturday'', 5), (''sat'', 5),
      (''sunday'', 6), (''sun'', 6)]"

definition PRIORITY_MAP :: "string \<rightharpoonup> string" where
  "PRIORITY_MAP = map_of [(''p0'', ''critical''), (''p1'', ''high''), (''p2'', ''normal'')]"

section \<open>The patterns\<close>

abbreviation sp :: atom where "sp \<equiv> In [CSpace]"
abbreviation wd :: atom where "wd \<equiv> In [CWord]"
abbreviation dg :: atom where "dg \<equiv> In [CDigit]"
abbreviation AZ :: atom where "AZ \<equiv> In [CRange CHR ''A'' CHR ''Z'']"
abbreviation az :: atom where "az \<equiv> In [CRange CHR ''a'' CHR ''z'']"
abbreviation p012 :: atom where "p012 \<equiv> In [CChar CHR ''0'', CChar CHR ''1'', CChar CHR ''2'']"
abbreviation not_end :: atom where
  "not_end \<equiv> NotIn [CChar CHR '';'', CChar CHR ''.'', CChar CHR 0x0A]"

text \<open>In \<open>normalize_date\<close>.\<close>

definition RE_QUARTER :: regex where
  "RE_QUARTER = seqs [A (Lit CHR ''q''), A (In [CRange CHR ''1'' CHR ''4''])]"

definition RE_NEXT :: regex where
  "RE_NEXT = seqs [str ''next'', Rep sp 1 None, Grp 1 (Rep wd 1 None)]"

definition RE_SLASH :: regex where
  "RE_SLASH = seqs [Grp 1 (Rep dg 1 (Some 2)), A (Lit CHR ''/''), Grp 2 (Rep dg 1 (Some 2)),
     Opt (seqs [A (Lit CHR ''/''), Grp 3 (Rep dg 2 (Some 4))])]"

definition opt_year :: regex where
  "opt_year = Opt (seqs [Rep sp 0 None, Opt (A (Lit CHR '','')), Rep sp 0 None,
     Grp 3 (Rep dg 4 (Some 4))])"

definition RE_MONTH_DAY :: regex where
  "RE_MONTH_DAY = seqs [Grp 1 (Rep wd 1 None), Rep sp 1 None, Grp 2 (Rep dg 1 (Some 2)),
     opt_year]"

definition RE_DAY_MONTH :: regex where
  "RE_DAY_MONTH = seqs [Grp 1 (Rep dg 1 (Some 2)), Rep sp 1 None, Grp 2 (Rep wd 1 None),
     opt_year]"

text \<open>In the metadata helpers.\<close>

definition p_tag :: regex where
  "p_tag = seqs [A (Lit CHR ''P''), A p012]"

definition RE_PRIORITY_TOKEN :: regex where
  "RE_PRIORITY_TOKEN = seqs [Opt (A (Lit CHR ''('')), WordB, Grp 1 p_tag, WordB,
     Opt (A (Lit CHR '')''))]"

definition RE_PRIORITY_FIELD :: regex where
  "RE_PRIORITY_FIELD = seqs [str ''Priority:'', Rep sp 0 None, Grp 1 p_tag, WordB]"

definition name_re :: regex where
  "name_re = seqs [A AZ, Rep az 1 None, Opt (seqs [Rep sp 1 None, A AZ, Rep az 1 None])]"

definition RE_OWNER_FIELD :: regex where
  "RE_OWNER_FIELD = seqs [str ''Owner:'', Rep sp 0 None, Grp 1 name_re]"

definition RE_OWNER_PAREN :: regex where
  "RE_OWNER_PAREN = seqs [str ''(owner'', Rep sp 1 None, Grp 1 name_re, A (Lit CHR '')'')]"

definition RE_NO_OWNER :: regex where
  "RE_NO_OWNER = seqs [str ''(no'', Rep sp 1 None, str ''owner'']"

definition RE_DUE :: regex where
  "RE_DUE = seqs [A (In [CChar CHR ''D'', CChar CHR ''d'']), str ''ue'', Opt (A (Lit CHR '':'')),
     Rep sp 1 None, Grp 1 (Rep not_end 1 None)]"

definition RE_BY :: regex where
  "RE_BY = seqs [WordB, str ''by'', Rep sp 1 None, Grp 1 (Rep not_end 1 None)]"

definition RE_TRAILING_TAG :: regex where
  "RE_TRAILING_TAG = seqs [Rep sp 0 None, A (Lit CHR ''(''), p_tag, A (Lit CHR '')''),
     Rep sp 0 None, Eol]"

text \<open>In \<open>_clean_task_text\<close>.\<close>

definition RE_CLEAN_OWNER :: regex where
  "RE_CLEAN_OWNER = seqs [Rep sp 0 None, Opt (A (Lit CHR '';'')), Rep sp 0 None, str ''Owner:'',
     Rep sp 0 None, name_re, Rep sp 0 None, Opt (A (Lit CHR '';''))]"

definition RE_CLEAN_OWNER_PAREN :: regex where
  "RE_CLEAN_OWNER_PAREN = seqs [Rep sp 0 None, str ''(owner'', Rep sp 1 None, Rep wd 1 None,
     A (Lit CHR '')'')]"

definition RE_CLEAN_DUE :: regex where
  "RE_CLEAN_DUE = seqs [Rep sp 0 None, Opt (A (Lit CHR '';'')), Rep sp 0 None,
     A (In [CChar CHR ''D'', CChar CHR ''d'']), str ''ue'', Opt (A (Lit CHR '':'')),
     Rep sp 1 None, Rep not_end 1 None]"

definition RE_CLEAN_BY :: regex where
  "RE_CLEAN_BY = seqs [Rep sp 1 None, str ''by'', Rep sp 1 None,
     alts [seqs [str ''next'', Rep sp 1 None, Rep wd 1 None],
           seqs [Rep dg 1 (Some 2), A (Lit CHR ''/''), Rep dg 1 (Some 2),
                 Opt (seqs [A (Lit CHR ''/''), Rep dg 2 (Some 4)])],
           seqs [Rep dg 4 (Some 4), A (Lit CHR ''-''), Rep dg 2 (Some 2), A (Lit CHR ''-''),
                 Rep dg 2 (Some 2)],
           seqs [alts [str ''Jan'', str ''Feb'', str ''Mar'', str ''Apr'', str ''May'',
                       str ''Jun'', str ''Jul'', str ''Aug'', str ''Sep'', str ''Oct'',
                       str ''Nov'', str ''Dec''],
                 Rep wd 0 None, Rep sp 1 None, Rep dg 1 (Some 2),
                 Opt (seqs [Rep sp 0 None, Opt (A (Lit CHR '','')), Rep sp 0 None,
                            Rep dg 4 (Some 4)])]]]"

definition RE_CLEAN_PRIORITY :: regex where
  "RE_CLEAN_PRIORITY = seqs [Rep sp 0 None, Opt (A (Lit CHR '';'')), Rep sp 0 None,
     str ''Priority:'', Rep sp 0 None, p_tag, Rep sp 0 None, Opt (A (Lit CHR '';''))]"

definition RE_CLEAN_TAG :: regex where
  "RE_CLEAN_TAG = seqs [Rep sp 0 None, A (Lit CHR ''(''), p_tag, A (Lit CHR '')'')]"

definition RE_CLEAN_NO_OWNER :: regex where
  "RE_CLEAN_NO_OWNER = seqs [Rep sp 0 None, str ''(no'', Rep sp 1 None, str ''owner'',
     Rep sp 1 None, Rep wd 0 None, A (Lit CHR '')'')]"

definition RE_CLEAN_SEMI :: regex where
  "RE_CLEAN_SEMI = seqs [Rep sp 0 None, A (Lit CHR '';''), Rep sp 0 None, Eol]"

definition RE_CLEAN_SPACES :: regex where
  "RE_CLEAN_SPACES = Rep sp 2 None"

text \<open>
  The line patterns. The set of separators after \<open>ACTION ITEM\<close> also names the em dash
  (code point 8212), which no text of the model holds.
\<close>

definition RE_TODO :: regex where
  "RE_TODO = seqs [Bol, str ''TODO:'', Rep sp 0 None, Grp 1 (Rep Dot 1 None)]"

definition RE_ACTION :: regex where
  "RE_ACTION = seqs [Bol, str ''Action:'', Rep sp 0 None, Grp 1 (Rep Dot 1 None)]"

definition RE_ACTION_ITEM :: regex where
  "RE_ACTION_ITEM = seqs [Bol, str ''ACTION'', Rep sp 1 None, str ''ITEM'', Rep sp 0 None,
     Alt (str ''--'') (A (In [CChar CHR '':'', CChar CHR ''-''])), Rep sp 0 None,
     Grp 1 (Rep Dot 1 None)]"

definition RE_REMINDER :: regex where
  "RE_REMINDER = seqs [Bol, str ''Reminder:'', Rep sp 0 None, Grp 1 (Rep Dot 1 None)]"

definition verbs :: "regex list" where
  "verbs = [str ''draft'', str ''send'', str ''create'', str ''write'', str ''fix'',
     str ''update'', str ''review'', str ''prepare'', str ''build'', str ''design'',
     str ''implement'', str ''schedule'', str ''reach'', str ''migrate'',
     seqs [str ''set'', Rep sp 1 None, str ''up''], str ''check'', str ''follow'',
     str ''complete'', str ''submit'', str ''finalize'', str ''organize'', str ''coordinate'',
     str ''investigate'', str ''test'', str ''deploy'', str ''audit'', str ''document'',
     str ''analyze'', str ''configure'', str ''remove'', str ''add'', str ''refactor'',
     str ''propose'', str ''plan'', str ''outline'', str ''establish'']"

definition RE_NAME_TO_VERB :: regex where
  "RE_NAME_TO_VERB = seqs [Bol, Grp 1 (seqs [A AZ, Rep az 1 None]), Rep sp 1 None, str ''to'',
     Rep sp 1 None, Grp 2 (alts verbs), WordB, Opt (Grp 3 (Rep Dot 1 None))]"

definition RE_DECISION :: regex where
  "RE_DECISION = seqs [Alt Bol (A (NotIn [CWord])), str ''Decision'', Opt (A (Lit CHR ''s'')),
     A (Lit CHR '':''), Rep sp 0 None]"

definition RE_PRIORITY_TAG :: regex where
  "RE_PRIORITY_TAG = seqs [A (Lit CHR ''(''), p_tag, A (Lit CHR '')'')]"

section \<open>The data model\<close>

record action_item =
  task :: string
  owner :: string
  due_date :: string
  priority :: string
  raw_line :: string

datatype error = OverflowError

section \<open>\<open>normalize_date\<close>\<close>

text \<open>
  \<open>date.today()\<close> is the parameter \<open>today\<close>. A result \<open>Inl OverflowError\<close> is the
  exception of the date addition.
\<close>

definition date_or_empty :: "nat \<Rightarrow> nat \<Rightarrow> nat \<Rightarrow> string" where
  "date_or_empty y m d = (case mk_date y m d of Some dt \<Rightarrow> isoformat dt | None \<Rightarrow> [])"

definition year_or_current :: "date \<Rightarrow> rmatch \<Rightarrow> nat" where
  "year_or_current today m =
     (if group_str m 3 \<noteq> [] then int_of_digits (group_str m 3) else d_year today)"

text \<open>The branch of \<open>next <weekday>\<close>, once the pattern has matched.\<close>

definition next_weekday :: "date \<Rightarrow> rmatch \<Rightarrow> error + string" where
  "next_weekday today m_relative =
     (case DAY_NAMES (group_str m_relative 1) of
        Some target_weekday \<Rightarrow>
          (let current_weekday = weekday today;
               days_ahead = (int target_weekday - int current_weekday) mod 7;
               days_ahead = (if days_ahead = 0 then 7 else days_ahead)
           in (case add_days (nat days_ahead) today of
                 Some result \<Rightarrow> Inr (isoformat result)
               | None \<Rightarrow> Inl OverflowError))
      | None \<Rightarrow> Inr [])"

text \<open>The branch of the slash date, once the pattern has matched.\<close>

definition slash_date :: "date \<Rightarrow> rmatch \<Rightarrow> string" where
  "slash_date today m_slash =
     (let month = int_of_digits (group_str m_slash 1);
          day = int_of_digits (group_str m_slash 2);
          year_str = group_str m_slash 3;
          year =
            (if year_str \<noteq> [] then
               (let y = int_of_digits year_str in if y < 100 then y + 2000 else y)
             else d_year today)
      in date_or_empty year month day)"

text \<open>
  The two month-name patterns; \<open>None\<close> when the pattern does not match or the name is
  not a month, and the code goes on to what follows.
\<close>

definition month_day_date :: "date \<Rightarrow> string \<Rightarrow> string option" where
  "month_day_date today raw =
     (case re_fullmatch True RE_MONTH_DAY raw of
        Some m_month_day \<Rightarrow>
          (case MONTH_NAMES (lower (group_str m_month_day 1)) of
             Some month \<Rightarrow>
               Some (date_or_empty (year_or_current today m_month_day) month
                       (int_of_digits (group_str m_month_day 2)))
           | None \<Rightarrow> None)
      | None \<Rightarrow> None)"

definition day_month_date :: "date \<Rightarrow> string \<Rightarrow> string option" where
  "day_month_date today raw =
     (case re_fullmatch True RE_DAY_MONTH raw of
        Some m_day_month \<Rightarrow>
          (case MONTH_NAMES (lower (group_str m_day_month 2)) of
             Some month \<Rightarrow>
               Some (date_or_empty (year_or_current today m_day_month) month
                       (int_of_digits (group_str m_day_month 1)))
           | None \<Rightarrow> None)
      | None \<Rightarrow> None)"

definition month_name_date :: "date \<Rightarrow> string \<Rightarrow> string" where
  "month_name_date today raw =
     (case month_day_date today raw of
        Some r \<Rightarrow> r
      | None \<Rightarrow> (case day_month_date today raw of Some r \<Rightarrow> r | None \<Rightarrow> []))"

text \<open>What follows the ISO attempt, on the stripped text.\<close>

definition normalize_free_form :: "date \<Rightarrow> string \<Rightarrow> error + string" where
  "normalize_free_form today raw =
     (let lowered = lower raw in
      if re_fullmatch False RE_QUARTER lowered \<noteq> None then Inr []
      else
        (case re_fullmatch False RE_NEXT lowered of
           Some m_relative \<Rightarrow> next_weekday today m_relative
         | None \<Rightarrow>
             if lowered = ''today'' then Inr (isoformat today)
             else if lowered = ''tomorrow'' then
               (case add_days 1 today of
                  Some result \<Rightarrow> Inr (isoformat result)
                | None \<Rightarrow> Inl OverflowError)
             else
               (case re_fullmatch False RE_SLASH raw of
                  Some m_slash \<Rightarrow> Inr (slash_date today m_slash)
                | None \<Rightarrow> Inr (month_name_date today raw))))"

definition normalize_date :: "date \<Rightarrow> string \<Rightarrow> error + string" where
  "normalize_date today raw0 =
     (let raw = strip raw0 in
      if raw = [] then Inr []
      else
        (case fromisoformat raw of
           Some parsed \<Rightarrow> Inr (isoformat parsed)
         | None \<Rightarrow> normalize_free_form today raw))"

section \<open>The metadata helpers\<close>

definition priority_of :: "rmatch \<Rightarrow> string" where
  "priority_of m =
     (case PRIORITY_MAP (lower (group_str m 1)) of Some v \<Rightarrow> v | None \<Rightarrow> ''normal'')"

definition extract_priority :: "string \<Rightarrow> string" where
  "extract_priority line =
     (case re_search True RE_PRIORITY_TOKEN line of
        Some m \<Rightarrow> priority_of m
      | None \<Rightarrow>
          (case re_search True RE_PRIORITY_FIELD line of
             Some m2 \<Rightarrow> priority_of m2
           | None \<Rightarrow> ''normal''))"

definition extract_owner :: "string \<Rightarrow> string" where
  "extract_owner line =
     (case re_search False RE_OWNER_FIELD line of
        Some m \<Rightarrow> strip (group_str m 1)
      | None \<Rightarrow>
          (case re_search True RE_OWNER_PAREN line of
             Some m2 \<Rightarrow> strip (group_str m2 1)
           | None \<Rightarrow>
               if re_search True RE_NO_OWNER line \<noteq> None then ''unassigned''
               else ''unassigned''))"

definition date_text :: "rmatch \<Rightarrow> string" where
  "date_text m = re_sub True RE_TRAILING_TAG [] (rstrip_dot (strip (group_str m 1)))"

definition due_by :: "date \<Rightarrow> string \<Rightarrow> error + string" where
  "due_by today line =
     (case re_search True RE_BY line of
        Some m2 \<Rightarrow>
          (case normalize_date today (date_text m2) of
             Inl e \<Rightarrow> Inl e
           | Inr result \<Rightarrow> if result \<noteq> [] then Inr result else Inr [])
      | None \<Rightarrow> Inr [])"

definition extract_due_date :: "date \<Rightarrow> string \<Rightarrow> error + string" where
  "extract_due_date today line =
     (case re_search False RE_DUE line of
        Some m \<Rightarrow>
          (case normalize_date today (date_text m) of
             Inl e \<Rightarrow> Inl e
           | Inr result \<Rightarrow> if result \<noteq> [] then Inr result else due_by today line)
      | None \<Rightarrow> due_by today line)"

definition strip_metadata :: "string \<Rightarrow> string" where
  "strip_metadata t =
     (let t = re_sub False RE_CLEAN_OWNER [] t;
          t = re_sub True RE_CLEAN_OWNER_PAREN [] t;
          t = re_sub False RE_CLEAN_DUE [] t;
          t = re_sub True RE_CLEAN_BY [] t;
          t = re_sub True RE_CLEAN_PRIORITY [] t;
          t = re_sub True RE_CLEAN_TAG [] t;
          t = re_sub True RE_CLEAN_NO_OWNER [] t
      in t)"

definition tidy :: "string \<Rightarrow> string" where
  "tidy t =
     (let t = re_sub False RE_CLEAN_SEMI [] t;
          t = re_sub False RE_CLEAN_SPACES '' '' t
      in strip (rstrip_dot (strip t)))"

definition clean_task_text :: "string \<Rightarrow> string" where
  "clean_task_text t = tidy (strip_metadata t)"

section \<open>\<open>parse_meeting_notes\<close>\<close>

text \<open>
  The line patterns are tried in the source's order; the result is the raw task text and
  the owner the pattern itself gives (\<open>unassigned\<close> for all but the fifth).
\<close>

definition classify :: "string \<Rightarrow> (string \<times> string) option" where
  "classify line =
     (case re_match True RE_TODO line of
        Some m \<Rightarrow> Some (group_str m 1, ''unassigned'')
      | None \<Rightarrow>
     (case re_match True RE_ACTION line of
        Some m \<Rightarrow> Some (group_str m 1, ''unassigned'')
      | None \<Rightarrow>
     (case re_match True RE_ACTION_ITEM line of
        Some m \<Rightarrow> Some (group_str m 1, ''unassigned'')
      | None \<Rightarrow>
     (case re_match True RE_REMINDER line of
        Some m \<Rightarrow> Some (group_str m 1, ''unassigned'')
      | None \<Rightarrow>
     (case re_match True RE_NAME_TO_VERB line of
        Some m \<Rightarrow> Some (strip (group_str m 2 @ group_str m 3), group_str m 1)
      | None \<Rightarrow>
          if re_search True RE_PRIORITY_TAG line \<noteq> None then Some (line, ''unassigned'')
          else None)))))"

text \<open>One turn of the loop: \<open>Inr None\<close> is \<open>continue\<close>.\<close>

definition make_item ::
  "string \<Rightarrow> string \<Rightarrow> string \<Rightarrow> string \<Rightarrow> string \<Rightarrow> action_item option" where
  "make_item raw task_text own due prio =
     (let clean_task = clean_task_text task_text
      in if clean_task = [] then None
         else Some \<lparr>task = clean_task, owner = own, due_date = due, priority = prio,
                     raw_line = strip raw\<rparr>)"

definition parse_line :: "date \<Rightarrow> string \<Rightarrow> error + action_item option" where
  "parse_line today raw =
     (let line = strip raw in
      if line = [] then Inr None
      else if re_search True RE_DECISION line \<noteq> None then Inr None
      else
        (case classify line of
           None \<Rightarrow> Inr None
         | Some (task_text, inferred) \<Rightarrow>
             (let extracted_owner = extract_owner line;
                  own = (if extracted_owner \<noteq> ''unassigned'' then extracted_owner
                         else inferred)
              in (case extract_due_date today line of
                    Inl e \<Rightarrow> Inl e
                  | Inr due \<Rightarrow>
                      Inr (make_item raw task_text own due (extract_priority line))))))"

fun parse_lines :: "date \<Rightarrow> string list \<Rightarrow> action_item list \<Rightarrow> error + action_item list" where
  "parse_lines today [] items = Inr items"
| "parse_lines today (raw # rest) items =
     (case parse_line today raw of
        Inl e \<Rightarrow> Inl e
      | Inr None \<Rightarrow> parse_lines today rest items
      | Inr (Some item) \<Rightarrow> parse_lines today rest (items @ [item]))"

definition parse_meeting_notes :: "date \<Rightarrow> string \<Rightarrow> error + action_item list" where
  "parse_meeting_notes today text = parse_lines today (splitlines text) []"

section \<open>\<open>sort_items\<close>\<close>

text \<open>
  \<open>sorted(items, key=_sort_key)\<close> is a stable sort; the keys are tuples, compared
  lexicographically, with \<open>False < True\<close> and texts compared by code points.
\<close>

definition sort_key_of :: "action_item \<Rightarrow> bool \<times> string \<times> bool \<times> string" where
  "sort_key_of item =
     (let owner_unknown = (lower (owner item) = [] \<or> lower (owner item) = ''unassigned'');
          date_unknown = (due_date item = [])
      in (owner_unknown, lower (owner item), date_unknown, due_date item))"

definition sort_items :: "action_item list \<Rightarrow> action_item list" where
  "sort_items items = sort_key sort_key_of items"

text \<open>
  The reading of the order that \<open>sort_items\<close> is checked against: \<open>owner_unknown\<close> is the
  first component of the key, and \<open>in_order a b\<close> says that \<open>a\<close> may stand before \<open>b\<close>.
\<close>

definition owner_unknown :: "action_item \<Rightarrow> bool" where
  "owner_unknown item = (lower (owner item) = [] \<or> lower (owner item) = ''unassigned'')"

definition in_order :: "action_item \<Rightarrow> action_item \<Rightarrow> bool" where
  "in_order a b =
     ((owner_unknown a \<longrightarrow> owner_unknown b)
      \<and> (owner_unknown a = owner_unknown b \<longrightarrow> lower (owner a) \<le> lower (owner b))
      \<and> (lower (owner a) = lower (owner b) \<longrightarrow>
            (due_date a = [] \<longrightarrow> due_date b = [])
            \<and> ((due_date a = []) = (due_date b = []) \<longrightarrow> due_date a \<le> due_date b)))"

section \<open>Notions used to state the properties\<close>

text \<open>The groups of a pattern, and the character before a position reached after \<open>u\<close>.\<close>

fun grps :: "regex \<Rightarrow> nat set" where
  "grps (Seq r1 r2) = grps r1 \<union> grps r2"
| "grps (Alt r1 r2) = grps r1 \<union> grps r2"
| "grps (Opt r) = grps r"
| "grps (Grp n r) = insert n (grps r)"
| "grps _ = {}"

definition prev_char :: "char option \<Rightarrow> string \<Rightarrow> char option" where
  "prev_char b u = (if u = [] then b else Some (last u))"

text \<open>
  A text of the form \<open>YYYY-MM-DD\<close> that names a date of the calendar, and what
  \<open>normalize_date\<close> may return: the empty text or the ISO form of a valid date.
\<close>

definition iso_date_text :: "string \<Rightarrow> bool" where
  "iso_date_text s =
     (length s = 10 \<and> s ! 4 = CHR ''-'' \<and> s ! 7 = CHR ''-''
      \<and> list_all is_digit (take 4 s) \<and> list_all is_digit (take 2 (drop 5 s))
      \<and> list_all is_digit (drop 8 s)
      \<and> valid_ymd (int_of_digits (take 4 s)) (int_of_digits (take 2 (drop 5 s)))
            (int_of_digits (drop 8 s)))"

definition date_result :: "string \<Rightarrow> bool" where
  "date_result r = (r = [] \<or> (\<exists>dt. valid_date dt \<and> r = isoformat dt))"

text \<open>The year of a slash date that names one: a value below 100 counts from 2000.\<close>

definition slash_year :: "string \<Rightarrow> nat" where
  "slash_year y = (if int_of_digits y < 100 then int_of_digits y + 2000 else int_of_digits y)"

section \<open>Facts about characters and the matcher\<close>

lemma char_cases: obtains n :: nat where "c = char_of n" and "n < 256"
  by (metis char_of_char nat_of_char_less_256)

lemmas char_defs = is_space_def is_digit_def is_upper_az_def is_lower_az_def is_word_def
  lower_char_def upper_char_def is_linebreak_def

lemmas char_nat = less_eq_char_def less_char_def char_of_eq_iff take_bit_eq_mod

lemma word_not_space: "is_word c \<Longrightarrow> \<not> is_space c"
  by (cases c rule: char_cases) (auto simp: char_defs char_nat)

lemma lower_char_word: "is_word (lower_char c) = is_word c"
  by (cases c rule: char_cases) (auto simp: char_defs char_nat)

lemma lower_az_lower: "is_lower_az (lower_char c) \<Longrightarrow> is_upper_az c \<or> is_lower_az c"
  by (cases c rule: char_cases) (auto simp: char_defs char_nat split: if_splits)

lemma digit_not_space: "is_digit c \<Longrightarrow> \<not> is_space c"
  by (cases c rule: char_cases) (auto simp: char_defs char_nat)

lemma digit_char_digit_val: "is_digit c \<Longrightarrow> digit_char (digit_val c) = c"
  by (cases c rule: char_cases) (auto simp: char_defs char_nat digit_char_def digit_val_def)

lemma digit_val_less: "is_digit c \<Longrightarrow> digit_val c < 10"
  by (cases c rule: char_cases) (auto simp: char_defs char_nat digit_val_def)

lemma digit_facts:
  assumes "is_digit a"
  shows "lower_char a = a" "a \<noteq> CHR ''q''" "a \<noteq> CHR ''n''" "a \<noteq> CHR ''t''" "a \<noteq> CHR ''/''"
    "a \<noteq> CHR ''-''" "is_word a"
  using assms by (cases a rule: char_cases; auto simp: char_defs char_nat)+

subsection \<open>What a match consumes and captures\<close>

lemma snd_advance: "snd (advance k p) = drop k (snd p)"
  by (simp add: advance_def)

lemma fst_advance:
  "fst (advance k p) = (if k = 0 then fst p else Some (snd p ! (k - 1)))"
  by (simp add: advance_def)

lemma in_matches_Seq:
  "(q, c') \<in> set (matches ic (Seq r1 r2) p c) \<longleftrightarrow>
     (\<exists>q1 c1. (q1, c1) \<in> set (matches ic r1 p c) \<and> (q, c') \<in> set (matches ic r2 q1 c1))"
  by (auto simp del: matches.simps(3) simp add: matches.simps(3)[abs_def]) 

lemma set_matches_Rep:
  "set (matches ic (Rep a lo hi) p c) =
     (\<lambda>k. (advance k p, c)) ` {k. lo \<le> k \<and> k \<le> length (takeWhile (atom_ok ic a) (snd p))
                                   \<and> (case hi of None \<Rightarrow> True | Some h \<Rightarrow> k \<le> h)}"
proof -
  define n where "n = length (takeWhile (atom_ok ic a) (snd p))"
  define m where "m = (case hi of None \<Rightarrow> n | Some h \<Rightarrow> min h n)"
  have "set (matches ic (Rep a lo hi) p c) = (\<lambda>k. (advance k p, c)) ` {lo..<Suc m}"
    unfolding m_def n_def by (simp only: matches.simps Let_def set_map set_rev set_upt)
  moreover have "{lo..<Suc m}
      = {k. lo \<le> k \<and> k \<le> n \<and> (case hi of None \<Rightarrow> True | Some h \<Rightarrow> k \<le> h)}"
    unfolding m_def by (cases hi) auto
  ultimately show ?thesis unfolding n_def by simp
qed

lemma in_matches_Rep:
  "(q, c') \<in> set (matches ic (Rep a lo hi) p c) \<longleftrightarrow>
     c' = c \<and> (\<exists>k. lo \<le> k \<and> k \<le> length (takeWhile (atom_ok ic a) (snd p))
                 \<and> (case hi of None \<Rightarrow> True | Some h \<Rightarrow> k \<le> h) \<and> q = advance k p)"
  unfolding set_matches_Rep by blast

lemma in_matches_Grp:
  "(q, c') \<in> set (matches ic (Grp n r) p c) \<longleftrightarrow>
     (\<exists>c1. (q, c1) \<in> set (matches ic r p c)
        \<and> c' = (n, take (length (snd p) - length (snd q)) (snd p)) # c1)"
  by auto

lemma in_matches_A:
  "(q, c') \<in> set (matches ic (A a) p c) \<longleftrightarrow>
     c' = c \<and> (\<exists>x xs. snd p = x # xs \<and> atom_ok ic a x \<and> q = (Some x, xs))"
  by (auto split: list.splits)

text \<open>A match consumes a prefix, and the character before the end position is its last.\<close>

lemma matches_consumes:
  "(q, c') \<in> set (matches ic r p c) \<Longrightarrow>
     \<exists>t. snd p = t @ snd q \<and> fst q = (if t = [] then fst p else Some (last t))"
proof (induction r arbitrary: p c q c')
  case Eps
  then show ?case by auto
next
  case (A a)
  then obtain x xs where "snd p = x # xs" "q = (Some x, xs)"
    unfolding in_matches_A by blast
  then show ?case by (intro exI[of _ "[x]"]) simp
next
  case (Seq r1 r2)
  from Seq.prems obtain q1 c1 where
    m1: "(q1, c1) \<in> set (matches ic r1 p c)" and m2: "(q, c') \<in> set (matches ic r2 q1 c1)"
    unfolding in_matches_Seq by blast
  from Seq.IH(1)[OF m1] obtain t1 where
    t1: "snd p = t1 @ snd q1" "fst q1 = (if t1 = [] then fst p else Some (last t1))" by blast
  from Seq.IH(2)[OF m2] obtain t2 where
    t2: "snd q1 = t2 @ snd q" "fst q = (if t2 = [] then fst q1 else Some (last t2))" by blast
  show ?case using t1 t2 by (intro exI[of _ "t1 @ t2"]) auto
next
  case (Alt r1 r2)
  from Alt.prems have "(q, c') \<in> set (matches ic r1 p c) \<or> (q, c') \<in> set (matches ic r2 p c)"
    by simp
  then show ?case using Alt.IH by blast
next
  case (Opt r)
  from Opt.prems have "(q, c') \<in> set (matches ic r p c) \<or> (q = p \<and> c' = c)"
    by auto
  then show ?case
  proof
    assume "(q, c') \<in> set (matches ic r p c)"
    then show ?thesis by (rule Opt.IH)
  next
    assume "q = p \<and> c' = c"
    then show ?thesis by (intro exI[of _ "[]"]) simp
  qed
next
  case (Rep a lo hi)
  then obtain k where k: "k \<le> length (takeWhile (atom_ok ic a) (snd p))" "q = advance k p"
    unfolding in_matches_Rep by blast
  have "length (takeWhile (atom_ok ic a) (snd p)) \<le> length (snd p)"
    by (rule length_takeWhile_le)
  with k have kl: "k \<le> length (snd p)" by simp
  show ?case
  proof (intro exI[of _ "take k (snd p)"] conjI)
    show "snd p = take k (snd p) @ snd q" using k by (simp add: snd_advance)
    show "fst q = (if take k (snd p) = [] then fst p else Some (last (take k (snd p))))"
      using k kl by (cases "k = 0") (auto simp: fst_advance last_conv_nth min_def)
  qed
next
  case (Grp n r)
  then show ?case unfolding in_matches_Grp by blast
next
  case Bol
  then show ?case by (auto split: if_splits)
next
  case Eol
  then show ?case by (auto split: if_splits)
next
  case WordB
  then show ?case by (auto split: if_splits)
qed

text \<open>Captures only grow, and only by the groups of the pattern.\<close>

lemma matches_caps:
  "(q, c') \<in> set (matches ic r p c) \<Longrightarrow> \<exists>new. c' = new @ c \<and> fst ` set new \<subseteq> grps r"
proof (induction r arbitrary: p c q c')
  case (Seq r1 r2)
  from Seq.prems obtain q1 c1 where
    m1: "(q1, c1) \<in> set (matches ic r1 p c)" and m2: "(q, c') \<in> set (matches ic r2 q1 c1)"
    unfolding in_matches_Seq by blast
  from Seq.IH(1)[OF m1] obtain n1 where n1: "c1 = n1 @ c" "fst ` set n1 \<subseteq> grps r1" by blast
  from Seq.IH(2)[OF m2] obtain n2 where n2: "c' = n2 @ c1" "fst ` set n2 \<subseteq> grps r2" by blast
  show ?case using n1 n2 by (intro exI[of _ "n2 @ n1"]) auto
next
  case (Alt r1 r2)
  from Alt.prems have "(q, c') \<in> set (matches ic r1 p c) \<or> (q, c') \<in> set (matches ic r2 p c)"
    by simp
  then show ?case using Alt.IH by (metis grps.simps(2) le_supI1 le_supI2)
next
  case (Opt r)
  from Opt.prems have "(q, c') \<in> set (matches ic r p c) \<or> (q = p \<and> c' = c)"
    by auto
  then show ?case
  proof
    assume "(q, c') \<in> set (matches ic r p c)"
    then show ?thesis using Opt.IH by simp
  next
    assume "q = p \<and> c' = c"
    then show ?thesis by (intro exI[of _ "[]"]) simp
  qed
next
  case (Rep a lo hi)
  then have "c' = c" unfolding in_matches_Rep by blast
  then show ?case by simp
next
  case (Grp n r)
  from Grp.prems obtain c1 where
    m: "(q, c1) \<in> set (matches ic r p c)"
    and c': "c' = (n, take (length (snd p) - length (snd q)) (snd p)) # c1"
    unfolding in_matches_Grp by blast
  from Grp.IH[OF m] obtain n1 where "c1 = n1 @ c" "fst ` set n1 \<subseteq> grps r" by blast
  then show ?case using c'
    by (intro exI[of _ "(n, take (length (snd p) - length (snd q)) (snd p)) # n1"]) auto
next
  case (A a)
  then have "c' = c" unfolding in_matches_A by blast
  then show ?case by simp
qed (auto split: if_splits)

lemma matches_keeps_group:
  assumes "(q, c') \<in> set (matches ic r p c)" and "n \<notin> grps r"
  shows "map_of c' n = map_of c n"
proof -
  from matches_caps[OF assms(1)] obtain new where
    new: "c' = new @ c" "fst ` set new \<subseteq> grps r" by blast
  with assms(2) have "n \<notin> fst ` set new" by blast
  then have "map_of new n = None" by (simp add: map_of_eq_None_iff)
  with new show ?thesis by (simp add: map_add_def map_of_append)
qed

lemma grps_str [simp]: "grps (str s) = {}"
  by (induction s) (auto simp: str_def)

lemma grps_seqs [simp]: "grps (seqs rs) = (\<Union>r\<in>set rs. grps r)"
  by (induction rs) (auto simp: seqs_def)

lemma grps_alts [simp]: "grps (alts rs) = (\<Union>r\<in>set rs. grps r)"
  by (induction rs rule: alts.induct) auto

lemma seqs_Cons: "seqs (r # rs) = Seq r (seqs rs)"
  by (simp add: seqs_def)

text \<open>The text a group takes when its pattern starts with a single character.\<close>

lemma group_text_starts:
  assumes "(q, c') \<in> set (matches ic (Grp n (Seq (A a) r)) p c)"
  shows "\<exists>x t. atom_ok ic a x \<and> map_of c' n = Some (x # t)"
proof -
  from assms obtain c1 where
    m: "(q, c1) \<in> set (matches ic (Seq (A a) r) p c)"
    and c': "c' = (n, take (length (snd p) - length (snd q)) (snd p)) # c1"
    unfolding in_matches_Grp by blast
  from m obtain q1 c2 where
    a: "(q1, c2) \<in> set (matches ic (A a) p c)" and r: "(q, c1) \<in> set (matches ic r q1 c2)"
    unfolding in_matches_Seq by blast
  from a obtain x xs where x: "snd p = x # xs" "atom_ok ic a x" "q1 = (Some x, xs)"
    unfolding in_matches_A by blast
  from matches_consumes[OF r] x obtain t where "xs = t @ snd q" by auto
  with x have "take (length (snd p) - length (snd q)) (snd p) = x # t" by simp
  with c' x show ?thesis by auto
qed

subsection \<open>Matching, searching, substituting\<close>

lemma match_at_Some:
  assumes "match_at ic r p = Some (t, rest, c)"
  shows "\<exists>q. (q, c) \<in> set (matches ic r p []) \<and> snd q = rest \<and> snd p = t @ rest"
proof -
  from assms obtain q ms where ms: "matches ic r p [] = (q, c) # ms"
    and t: "t = take (length (snd p) - length (snd q)) (snd p)" and rest: "rest = snd q"
    by (auto simp: match_at_def split: list.splits)
  then have mem: "(q, c) \<in> set (matches ic r p [])" by simp
  from matches_consumes[OF mem] obtain u where "snd p = u @ snd q" by blast
  with t have "snd p = t @ snd q" by simp
  with rest mem show ?thesis by (intro exI[of _ q]) simp
qed

lemma match_at_None: "match_at ic r p = None \<longleftrightarrow> matches ic r p [] = []"
  by (auto simp: match_at_def split: list.splits)

lemma search_from_Some:
  "search_from ic r b s = Some m \<Longrightarrow>
     s = m_pre m @ m_text m @ m_post m
     \<and> (\<exists>q. (q, m_caps m) \<in> set (matches ic r (prev_char b (m_pre m), m_text m @ m_post m) [])
            \<and> snd q = m_post m)"
proof (induction s arbitrary: b m)
  case Nil
  then obtain t rest c where ma: "match_at ic r (b, []) = Some (t, rest, c)"
    and m: "m = \<lparr>m_pre = [], m_text = t, m_post = rest, m_caps = c\<rparr>"
    by (auto split: option.splits)
  from match_at_Some[OF ma] m show ?case by (auto simp: prev_char_def)
next
  case (Cons x xs)
  show ?case
  proof (cases "match_at ic r (b, x # xs)")
    case (Some res)
    obtain t rest c where res: "res = (t, rest, c)" by (cases res) auto
    with Some Cons.prems have m: "m = \<lparr>m_pre = [], m_text = t, m_post = rest, m_caps = c\<rparr>"
      by simp
    from match_at_Some[OF Some[unfolded res]] m show ?thesis by (auto simp: prev_char_def)
  next
    case None
    with Cons.prems obtain m' where m': "search_from ic r (Some x) xs = Some m'"
      and m: "m = m'\<lparr>m_pre := x # m_pre m'\<rparr>"
      by (auto split: option.splits)
    from Cons.IH[OF m'] m show ?thesis
      by (auto simp: prev_char_def)
  qed
qed

lemma search_from_None:
  "search_from ic r b s = None \<longleftrightarrow> (\<forall>u v. s = u @ v \<longrightarrow> matches ic r (prev_char b u, v) [] = [])"
proof (induction s arbitrary: b)
  case Nil
  have "search_from ic r b [] = None \<longleftrightarrow> match_at ic r (b, []) = None"
    by (auto split: option.splits)
  then show ?case by (simp add: prev_char_def match_at_None)
next
  case (Cons x xs)
  have split: "(\<forall>u v. x # xs = u @ v \<longrightarrow> matches ic r (prev_char b u, v) [] = [])
      \<longleftrightarrow> matches ic r (b, x # xs) [] = []
          \<and> (\<forall>u v. xs = u @ v \<longrightarrow> matches ic r (prev_char (Some x) u, v) [] = [])"
    (is "?L \<longleftrightarrow> ?R")
  proof
    assume l: ?L
    have "matches ic r (b, x # xs) [] = []" using l[rule_format, of "[]" "x # xs"]
      by (simp add: prev_char_def)
    moreover have "matches ic r (prev_char (Some x) u, v) [] = []" if "xs = u @ v" for u v
      using l[rule_format, of "x # u" v] that by (auto simp: prev_char_def)
    ultimately show ?R by blast
  next
    assume r: ?R
    show ?L
    proof (intro allI impI)
      fix u v assume uv: "x # xs = u @ v"
      show "matches ic r (prev_char b u, v) [] = []"
      proof (cases u)
        case Nil
        with uv r show ?thesis by (simp add: prev_char_def)
      next
        case (Cons y u')
        with uv have "xs = u' @ v" "y = x" by auto
        with r have "matches ic r (prev_char (Some x) u', v) [] = []" by blast
        then show ?thesis using Cons \<open>y = x\<close> by (auto simp: prev_char_def)
      qed
    qed
  qed
  have "search_from ic r b (x # xs) = None
      \<longleftrightarrow> match_at ic r (b, x # xs) = None \<and> search_from ic r (Some x) xs = None"
    by (auto split: option.splits)
  then show ?case unfolding split using Cons.IH[of "Some x"]
    by (simp add: match_at_None)
qed

lemma sub_from_no_match:
  "search_from ic r b s = None \<Longrightarrow> sub_from ic r rep 0 b s = s"
  by (induction s arbitrary: b) (auto split: option.splits)

lemma re_sub_no_match: "re_search ic r s = None \<Longrightarrow> re_sub ic r rep s = s"
  by (simp add: re_search_def re_sub_def sub_from_no_match)

subsection \<open>Evaluating a pattern on a text that is only partly known\<close>

lemma rev_upt_last: "lo \<le> n \<Longrightarrow> rev [lo..<Suc n] = n # rev [lo..<n]"
  by simp

lemma takeWhile_all: "list_all P v \<Longrightarrow> takeWhile P v = v"
  by (simp add: list_all_iff)

lemma takeWhile_none: "v \<noteq> [] \<Longrightarrow> \<not> P (hd v) \<Longrightarrow> takeWhile P v = []"
  by (cases v) auto

lemma atom_cs:
  "atom_ok False sp = is_space" "atom_ok False wd = is_word" "atom_ok False dg = is_digit"
  by (rule ext, simp add: in_sets_def)+

lemma matches_Rep_all:
  assumes "list_all (atom_ok ic a) v" and "lo \<le> length v"
  shows "matches ic (Rep a lo None) (b, v) c
    = (advance (length v) (b, v), c) # map (\<lambda>k. (advance k (b, v), c)) (rev [lo..<length v])"
proof -
  have tw: "takeWhile (atom_ok ic a) v = v" using assms(1) by (rule takeWhile_all)
  have "matches ic (Rep a lo None) (b, v) c
      = map (\<lambda>k. (advance k (b, v), c)) (rev [lo..<Suc (length v)])"
    by (simp only: matches.simps Let_def snd_conv tw option.case)
  also have "\<dots> = (advance (length v) (b, v), c) # map (\<lambda>k. (advance k (b, v), c)) (rev [lo..<length v])"
    by (simp only: rev_upt_last[OF assms(2)] list.map)
  finally show ?thesis .
qed

lemma matches_Grp_Cons:
  assumes "matches ic r p c = (q, c1) # rest"
  shows "\<exists>rest'. matches ic (Grp n r) p c
     = (q, (n, take (length (snd p) - length (snd q)) (snd p)) # c1) # rest'"
  using assms by simp

lemma matches_Seq_single:
  assumes "matches ic r1 p c = [(q1, c1)]"
  shows "matches ic (Seq r1 r2) p c = matches ic r2 q1 c1"
  using assms by simp

lemma concat_Eps: "concat (map (\<lambda>(x, y). matches ic Eps x y) l) = l"
  by (induction l) auto

lemma matches_Seq_Eps: "matches ic (Seq r Eps) p c = matches ic r p c"
  by (simp only: matches.simps(3) concat_Eps)

lemma fullmatch_head:
  assumes "matches ic r (None, s) [] = (q, c) # rest" and "snd q = []"
  shows "re_fullmatch ic r s = Some \<lparr>m_pre = [], m_text = s, m_post = [], m_caps = c\<rparr>"
  using assms by (simp add: re_fullmatch_def)

section \<open>The loop of \<open>parse_meeting_notes\<close>\<close>

lemma parse_lines_invariant:
  assumes step: "\<And>raw it. parse_line today raw = Inr (Some it) \<Longrightarrow> P it"
  shows "parse_lines today ls acc = Inr items \<Longrightarrow> \<forall>it\<in>set acc. P it \<Longrightarrow> \<forall>it\<in>set items. P it"
proof (induction ls arbitrary: acc)
  case Nil
  then show ?case by simp
next
  case (Cons raw rest)
  show ?case
  proof (cases "parse_line today raw")
    case (Inl e)
    with Cons.prems show ?thesis by simp
  next
    case (Inr r)
    show ?thesis
    proof (cases r)
      case None
      with Inr Cons show ?thesis by simp
    next
      case (Some item)
      with Inr Cons.prems(1) have run: "parse_lines today rest (acc @ [item]) = Inr items"
        by simp
      from Inr Some have "P item" using step by simp
      with Cons.prems(2) have "\<forall>it\<in>set (acc @ [item]). P it" by simp
      with Cons.IH run show ?thesis by blast
    qed
  qed
qed

lemma parse_line_fields:
  assumes "parse_line today raw = Inr (Some it)"
  shows "task it \<noteq> []"
    and "priority it = extract_priority (strip raw)"
    and "extract_due_date today (strip raw) = Inr (due_date it)"
    and "\<exists>tt inferred. classify (strip raw) = Some (tt, inferred) \<and>
           owner it = (if extract_owner (strip raw) \<noteq> ''unassigned''
                       then extract_owner (strip raw) else inferred)"
  using assms
  by (auto simp: parse_line_def make_item_def Let_def
      split: if_splits option.splits sum.splits prod.splits)

section \<open>Priorities\<close>

lemma priority_of_range: "priority_of m \<in> {''critical'', ''high'', ''normal''}"
  by (auto simp: priority_of_def PRIORITY_MAP_def split: option.splits if_splits)

lemma extract_priority_range: "extract_priority line \<in> {''critical'', ''high'', ''normal''}"
  unfolding extract_priority_def using priority_of_range
  by (auto split: option.splits)

text \<open>
  C10. No item that \<open>parse_meeting_notes\<close> returns has the priority \<open>low\<close>: the priority
  of every returned item is \<open>critical\<close>, \<open>high\<close> or \<open>normal\<close>.
\<close>

theorem parse_priority_never_low:
  assumes "parse_meeting_notes today text = Inr items" and "it \<in> set items"
  shows "priority it \<in> {''critical'', ''high'', ''normal''} \<and> priority it \<noteq> ''low''"
proof -
  have "\<forall>it\<in>set items. priority it \<in> {''critical'', ''high'', ''normal''}"
  proof (rule parse_lines_invariant[where today = today and ls = "splitlines text" and acc = "[]"])
    fix raw it
    assume "parse_line today raw = Inr (Some it)"
    then show "priority it \<in> {''critical'', ''high'', ''normal''}"
      using parse_line_fields(2) extract_priority_range by simp
  next
    show "parse_lines today (splitlines text) [] = Inr items"
      using assms(1) by (simp add: parse_meeting_notes_def)
  qed simp
  with assms(2) have "priority it \<in> {''critical'', ''high'', ''normal''}" by blast
  then show ?thesis by auto
qed

lemma parse_tagged_todo:
  "parse_meeting_notes \<lparr>d_year = 2026, d_month = 2, d_day = 6\<rparr> ''TODO: Fix it (P1)''
   = Inr [\<lparr>task = ''Fix it'', owner = ''unassigned'', due_date = [], priority = ''high'',
           raw_line = ''TODO: Fix it (P1)''\<rparr>]"
  by code_simp

theorem parse_priority_never_low_witness:
  "parse_meeting_notes \<lparr>d_year = 2026, d_month = 2, d_day = 6\<rparr> ''TODO: Fix it (P1)''
   = Inr [\<lparr>task = ''Fix it'', owner = ''unassigned'', due_date = [], priority = ''high'',
           raw_line = ''TODO: Fix it (P1)''\<rparr>]
   \<and> priority \<lparr>task = ''Fix it'', owner = ''unassigned'', due_date = [], priority = ''high'',
                 raw_line = ''TODO: Fix it (P1)''\<rparr> \<noteq> ''low''"
  using parse_priority_never_low[OF parse_tagged_todo, of
      "\<lparr>task = ''Fix it'', owner = ''unassigned'', due_date = [], priority = ''high'',
        raw_line = ''TODO: Fix it (P1)''\<rparr>"]
    parse_tagged_todo
  by simp

section \<open>Dates that \<open>normalize_date\<close> returns\<close>

lemma is_digit_digit_char [simp]: "is_digit (digit_char n)"
  by (simp add: is_digit_def digit_char_def char_nat)

lemma digit_val_digit_char [simp]: "digit_val (digit_char n) = n mod 10"
  by (simp add: digit_val_def digit_char_def)

lemma int_of_dec2: "n < 100 \<Longrightarrow> int_of_digits (dec2 n) = n"
  by (simp add: int_of_digits_def dec2_def)

lemma int_of_dec4:
  assumes "n < 10000"
  shows "int_of_digits (dec4 n) = n"
proof -
  have h: "n div 100 = n div 10 div 10" "n div 1000 = n div 10 div 10 div 10"
    by (simp_all add: div_mult2_eq)
  have "n div 10 div 10 div 10 < 10" using assms by (simp add: h[symmetric])
  then show ?thesis
    by (simp add: int_of_digits_def dec4_def h)
qed

lemma days_in_month_le: "days_in_month y m \<le> 31"
  by (simp add: days_in_month_def)

lemma days_in_month_ge: "28 \<le> days_in_month y m"
  by (simp add: days_in_month_def)

lemma iso_of_valid:
  assumes "valid_date dt"
  shows "iso_date_text (isoformat dt)"
proof -
  from assms have y: "d_year dt < 10000" and m: "d_month dt < 100" and d: "d_day dt < 100"
    and v: "valid_ymd (d_year dt) (d_month dt) (d_day dt)"
    using days_in_month_le[of "d_year dt" "d_month dt"]
    by (auto simp: valid_date_def valid_ymd_def)
  have p1: "take 4 (isoformat dt) = dec4 (d_year dt)"
    and p2: "take 2 (drop 5 (isoformat dt)) = dec2 (d_month dt)"
    and p3: "drop 8 (isoformat dt) = dec2 (d_day dt)"
    by (simp_all add: isoformat_def dec4_def dec2_def)
  have l: "length (isoformat dt) = 10" "isoformat dt ! 4 = CHR ''-''" "isoformat dt ! 7 = CHR ''-''"
    by (simp_all add: isoformat_def dec4_def dec2_def nth_append)
  have dg: "list_all is_digit (dec4 (d_year dt))" "list_all is_digit (dec2 (d_month dt))"
    "list_all is_digit (dec2 (d_day dt))"
    by (simp_all add: dec4_def dec2_def)
  show ?thesis
    unfolding iso_date_text_def p1 p2 p3
    using l dg v by (simp add: int_of_dec2[OF m] int_of_dec2[OF d] int_of_dec4[OF y])
qed

lemma next_day_valid:
  assumes "valid_date dt" and "d_year (next_day dt) \<le> 9999"
  shows "valid_date (next_day dt)"
  using assms days_in_month_ge[of "d_year dt" "d_month dt + 1"]
  by (auto simp: valid_date_def valid_ymd_def next_day_def days_in_month_def split: if_splits)

lemma add_days_valid:
  "valid_date dt \<Longrightarrow> add_days n dt = Some r \<Longrightarrow> valid_date r"
proof (induction n arbitrary: dt)
  case 0
  then show ?case by simp
next
  case (Suc n)
  from Suc.prems(2) have y: "d_year (next_day dt) \<le> 9999" and r: "add_days n (next_day dt) = Some r"
    by (auto simp: Let_def split: if_splits)
  from next_day_valid[OF Suc.prems(1) y] Suc.IH r show ?case by blast
qed

lemma date_result_empty [simp]: "date_result []"
  by (simp add: date_result_def)

lemma date_result_iso: "valid_date dt \<Longrightarrow> date_result (isoformat dt)"
  by (auto simp: date_result_def)

lemma date_result_date_or_empty: "date_result (date_or_empty y m d)"
proof (cases "valid_ymd y m d")
  case True
  then have "valid_date \<lparr>d_year = y, d_month = m, d_day = d\<rparr>" by (simp add: valid_date_def)
  then show ?thesis using True by (simp add: date_or_empty_def mk_date_def date_result_iso)
next
  case False
  then show ?thesis by (simp add: date_or_empty_def mk_date_def)
qed

lemma next_weekday_result:
  assumes "valid_date today" and "next_weekday today m = Inr r"
  shows "date_result r"
proof (cases "DAY_NAMES (group_str m 1)")
  case None
  with assms(2) show ?thesis by (simp add: next_weekday_def)
next
  case (Some t)
  with assms(2) obtain k res where "add_days k today = Some res" "r = isoformat res"
    by (auto simp: next_weekday_def Let_def split: option.splits)
  then show ?thesis using add_days_valid[OF assms(1)] date_result_iso by blast
qed

lemma month_name_date_result: "date_result (month_name_date today s)"
  using date_result_date_or_empty
  by (auto simp: month_name_date_def month_day_date_def day_month_date_def split: option.splits)

lemma slash_date_result: "date_result (slash_date today m)"
  using date_result_date_or_empty by (simp add: slash_date_def Let_def)

lemma normalize_free_form_result:
  assumes "valid_date today" and "normalize_free_form today s = Inr r"
  shows "date_result r"
proof -
  consider (q) "re_fullmatch False RE_QUARTER (lower s) \<noteq> None"
    | (n) m where "re_fullmatch False RE_QUARTER (lower s) = None"
        "re_fullmatch False RE_NEXT (lower s) = Some m"
    | (o) "re_fullmatch False RE_QUARTER (lower s) = None" "re_fullmatch False RE_NEXT (lower s) = None"
    by (cases "re_fullmatch False RE_NEXT (lower s)") auto
  then show ?thesis
  proof cases
    case q
    with assms(2) show ?thesis by (simp add: normalize_free_form_def)
  next
    case n
    with assms(2) have "next_weekday today m = Inr r" by (simp add: normalize_free_form_def)
    then show ?thesis by (rule next_weekday_result[OF assms(1)])
  next
    case o
    show ?thesis
    proof (cases "lower s = ''today''")
      case True
      with o assms(2) have "r = isoformat today" by (simp add: normalize_free_form_def)
      then show ?thesis using date_result_iso[OF assms(1)] by simp
    next
      case nt: False
      show ?thesis
      proof (cases "lower s = ''tomorrow''")
        case True
        with o nt assms(2) obtain res where "add_days 1 today = Some res" "r = isoformat res"
          by (auto simp: normalize_free_form_def split: option.splits)
        then show ?thesis using add_days_valid[OF assms(1)] date_result_iso by blast
      next
        case False
        with o nt assms(2) show ?thesis
          using slash_date_result month_name_date_result
          by (auto simp: normalize_free_form_def split: option.splits)
      qed
    qed
  qed
qed

lemma fromisoformat_valid: "fromisoformat s = Some p \<Longrightarrow> valid_date p"
  by (auto simp: fromisoformat_def mk_date_def valid_date_def split: if_splits)

lemma normalize_date_result:
  assumes "valid_date today" and "normalize_date today raw = Inr r"
  shows "date_result r"
proof (cases "strip raw = []")
  case True
  with assms(2) show ?thesis by (simp add: normalize_date_def)
next
  case False
  show ?thesis
  proof (cases "fromisoformat (strip raw)")
    case None
    with False assms(2) have "normalize_free_form today (strip raw) = Inr r"
      by (simp add: normalize_date_def)
    then show ?thesis by (rule normalize_free_form_result[OF assms(1)])
  next
    case (Some p)
    with False assms(2) have "r = isoformat p" by (simp add: normalize_date_def)
    then show ?thesis using fromisoformat_valid[OF Some] date_result_iso by simp
  qed
qed

lemma due_by_result:
  assumes "valid_date today" and "due_by today line = Inr d"
  shows "date_result d"
proof (cases "re_search True RE_BY line")
  case None
  with assms(2) show ?thesis by (simp add: due_by_def)
next
  case (Some m)
  with assms(2) obtain r where "normalize_date today (date_text m) = Inr r" "d = r \<or> d = []"
    by (auto simp: due_by_def split: sum.splits if_splits)
  then show ?thesis using normalize_date_result[OF assms(1)] by auto
qed

lemma extract_due_date_result:
  assumes "valid_date today" and "extract_due_date today line = Inr d"
  shows "d = [] \<or> iso_date_text d"
proof -
  have "date_result d"
  proof (cases "re_search False RE_DUE line")
    case None
    with assms(2) show ?thesis using due_by_result[OF assms(1)] by (simp add: extract_due_date_def)
  next
    case (Some m)
    with assms(2) obtain r where r: "normalize_date today (date_text m) = Inr r"
      and d: "(r \<noteq> [] \<and> d = r) \<or> due_by today line = Inr d"
      by (auto simp: extract_due_date_def split: sum.splits if_splits)
    from d show ?thesis
      using normalize_date_result[OF assms(1) r] due_by_result[OF assms(1)] by auto
  qed
  then show ?thesis using iso_of_valid by (auto simp: date_result_def)
qed

subsection \<open>Ordinals, weekdays and adding days\<close>

lemma days_before_month_Suc:
  "1 \<le> m \<Longrightarrow> days_before_month y (Suc m) = days_before_month y m + int (days_in_month y m)"
  by (simp add: days_before_month_def)

lemma upt12: "[1..<12] = [1, 2, 3, 4, 5, 6, 7, 8, 9, 10, 11::nat]"
  by code_simp

lemma days_before_december: "days_before_month y 12 = 334 + (if is_leap y then 1 else 0)"
  unfolding days_before_month_def upt12 by (simp add: days_in_month_def)

lemma div_step:
  fixes y k :: nat
  assumes "1 \<le> y" and "0 < k"
  shows "int y div int k - int (y - 1) div int k = (if y mod k = 0 then 1 else 0)"
proof -
  have c: "int y div int k = int (y div k)" "int (y - 1) div int k = int ((y - 1) div k)"
    by (simp_all add: zdiv_int)
  have "y div k = (y - 1) div k + (if y mod k = 0 then 1 else 0)"
  proof (cases "y mod k = 0")
    case True
    then obtain q where q: "y = k * q" by (auto simp: mod_eq_0_iff_dvd)
    with assms have "0 < q" by (cases q) auto
    then obtain q' where q': "q = Suc q'" by (cases q) auto
    obtain r where r: "k = Suc r" using assms by (cases k) auto
    from q q' r have e: "y - 1 = r + q' * k" by simp
    have "(r + q' * k) div k = q' + r div k" using assms by (intro div_mult_self1) simp
    moreover have "r div k = 0" using r by simp
    ultimately have "(y - 1) div k = q'" unfolding e by simp
    with q q' assms True show ?thesis by simp
  next
    case False
    then have pos: "0 < y mod k" by simp
    obtain m where m: "y mod k = Suc m" using pos by (cases "y mod k") auto
    have "y = (y div k) * k + y mod k" by simp
    then have e: "y - 1 = m + (y div k) * k" using m by linarith
    have "m < k" using m assms by (metis Suc_lessD mod_less_divisor)
    then have "m div k = 0" by simp
    moreover have "(m + (y div k) * k) div k = y div k + m div k"
      using assms by (intro div_mult_self1) simp
    ultimately have "(y - 1) div k = y div k" unfolding e by simp
    with False show ?thesis by simp
  qed
  then show ?thesis unfolding c by simp
qed

lemma days_before_month_one: "days_before_month y 1 = 0" "days_before_month y (Suc 0) = 0"
  by (simp_all add: days_before_month_def)

lemma year_step_linear:
  fixes p4 q4 p100 q100 p400 q400 z a b c :: int
  assumes "p4 - q4 = a" and "p100 - q100 = b" and "p400 - q400 = c"
  shows "(z + 1) * 365 + p4 - p100 + p400 = z * 365 + q4 - q100 + q400 + 365 + (a - b + c)"
proof -
  have "(z + 1) * 365 = z * 365 + 365" by (simp add: algebra_simps)
  with assms show ?thesis by linarith
qed

lemma leap_count:
  fixes y :: nat
  shows "(if y mod 4 = 0 then 1 else 0) - (if y mod 100 = 0 then 1 else 0)
         + (if y mod 400 = 0 then 1 else 0) = (if is_leap y then 1 else (0::int))"
proof -
  have m1: "y mod 400 = 0 \<longrightarrow> y mod 100 = 0"
  proof
    assume "y mod 400 = 0"
    then have "400 dvd y" by (simp add: mod_eq_0_iff_dvd)
    moreover have "(100::nat) dvd 400" by simp
    ultimately have "100 dvd y" by (rule dvd_trans[rotated])
    then show "y mod 100 = 0" by (simp add: mod_eq_0_iff_dvd)
  qed
  have m2: "y mod 100 = 0 \<longrightarrow> y mod 4 = 0"
  proof
    assume "y mod 100 = 0"
    then have "100 dvd y" by (simp add: mod_eq_0_iff_dvd)
    moreover have "(4::nat) dvd 100" by simp
    ultimately have "4 dvd y" by (rule dvd_trans[rotated])
    then show "y mod 4 = 0" by (simp add: mod_eq_0_iff_dvd)
  qed
  define A where "A = (y mod 4 = 0)"
  define B where "B = (y mod 100 = 0)"
  define C where "C = (y mod 400 = 0)"
  have imp: "C \<longrightarrow> B" "B \<longrightarrow> A" using m1 m2 by (simp_all add: A_def B_def C_def)
  have "(if A then 1 else 0) - (if B then 1 else 0) + (if C then 1 else 0)
      = (if A \<and> (\<not> B \<or> C) then 1 else (0::int))"
    using imp by (cases A; cases B; cases C; simp)
  then show ?thesis by (simp add: is_leap_def A_def B_def C_def)
qed

lemma days_before_next_year:
  assumes "1 \<le> y"
  shows "days_before_year (Suc y) = days_before_year y + 365 + (if is_leap y then 1 else 0)"
proof -
  define z where "z = int (y - 1)"
  have pos: "(0::nat) < 4" "(0::nat) < 100" "(0::nat) < 400" by simp_all
  have iy: "int y = z + 1" using assms by (simp add: z_def)
  have a0: "days_before_year (Suc y) = (z + 1) * 365 + (z + 1) div 4 - (z + 1) div 100 + (z + 1) div 400"
    by (simp add: days_before_year_def Let_def iy add.commute)
  have b0: "days_before_year y = z * 365 + z div 4 - z div 100 + z div 400"
    by (simp add: days_before_year_def Let_def iy)
  have d4: "(z + 1) div 4 - z div 4 = (if y mod 4 = 0 then 1 else 0)"
    using div_step[OF assms pos(1)] unfolding z_def[symmetric] iy of_nat_numeral .
  have d100: "(z + 1) div 100 - z div 100 = (if y mod 100 = 0 then 1 else 0)"
    using div_step[OF assms pos(2)] unfolding z_def[symmetric] iy of_nat_numeral .
  have d400: "(z + 1) div 400 - z div 400 = (if y mod 400 = 0 then 1 else 0)"
    using div_step[OF assms pos(3)] unfolding z_def[symmetric] iy of_nat_numeral .
  show ?thesis
    unfolding a0 b0 year_step_linear[OF d4 d100 d400] leap_count ..
qed

lemma toordinal_next_day:
  assumes "valid_date dt"
  shows "toordinal (next_day dt) = toordinal dt + 1"
proof -
  let ?y = "d_year dt" and ?m = "d_month dt" and ?d = "d_day dt"
  from assms have v: "1 \<le> ?y" "1 \<le> ?m" "?m \<le> 12" "1 \<le> ?d" "?d \<le> days_in_month ?y ?m"
    by (simp_all add: valid_date_def valid_ymd_def)
  consider (day) "?d < days_in_month ?y ?m"
    | (month) "?d = days_in_month ?y ?m" "?m < 12"
    | (year) "?d = days_in_month ?y ?m" "?m = 12"
    using v by linarith
  then show ?thesis
  proof cases
    case day
    then show ?thesis by (simp add: next_day_def toordinal_def)
  next
    case month
    then have "next_day dt = dt\<lparr>d_month := ?m + 1, d_day := 1\<rparr>" by (simp add: next_day_def)
    then show ?thesis
      using month days_before_month_Suc[OF v(2), of ?y] by (simp add: toordinal_def)
  next
    case year
    then have d31: "?d = 31" by (simp add: days_in_month_def)
    from year have "next_day dt = \<lparr>d_year = Suc ?y, d_month = 1, d_day = 1\<rparr>"
      by (simp add: next_day_def)
    then show ?thesis
      using year d31 days_before_next_year[OF v(1)] days_before_december[of ?y]
      by (simp add: toordinal_def days_before_month_one)
  qed
qed

lemma add_days_ordinal:
  "valid_date dt \<Longrightarrow> add_days n dt = Some r \<Longrightarrow> toordinal r = toordinal dt + int n"
proof (induction n arbitrary: dt)
  case 0
  then show ?case by simp
next
  case (Suc n)
  from Suc.prems(2) have y: "d_year (next_day dt) \<le> 9999" and r: "add_days n (next_day dt) = Some r"
    by (auto simp: Let_def split: if_splits)
  from Suc.IH[OF next_day_valid[OF Suc.prems(1) y] r] toordinal_next_day[OF Suc.prems(1)]
  show ?case by simp
qed

lemma add_days_defined:
  "valid_date dt \<Longrightarrow> n \<le> 31 \<Longrightarrow>
     d_year dt < 9999 \<or> d_month dt < 12 \<or> d_day dt + n \<le> 31 \<Longrightarrow>
     \<exists>r. add_days n dt = Some r"
proof (induction n arbitrary: dt)
  case 0
  then show ?case by simp
next
  case (Suc n)
  let ?nd = "next_day dt"
  from Suc.prems(1) have v: "1 \<le> d_month dt" "d_month dt \<le> 12" "d_day dt \<le> days_in_month (d_year dt) (d_month dt)"
    "d_year dt \<le> 9999"
    by (simp_all add: valid_date_def valid_ymd_def)
  have dim: "days_in_month (d_year dt) (d_month dt) \<le> 31" by (rule days_in_month_le)
  have dec: "days_in_month (d_year dt) 12 = 31" by (simp add: days_in_month_def)
  have y: "d_year ?nd \<le> 9999"
    using Suc.prems(3) v dim dec by (auto simp: next_day_def)
  have c: "d_year ?nd < 9999 \<or> d_month ?nd < 12 \<or> d_day ?nd + n \<le> 31"
    using Suc.prems(2,3) v dim dec by (auto simp: next_day_def)
  from Suc.IH[OF next_day_valid[OF Suc.prems(1) y] _ c] Suc.prems(2) y
  show ?case by (simp add: Let_def)
qed

lemma weekday_add_days:
  assumes "valid_date dt" and "add_days n dt = Some r"
  shows "weekday r = (weekday dt + n) mod 7"
proof -
  have o: "toordinal r = toordinal dt + int n" by (rule add_days_ordinal[OF assms])
  have "0 \<le> toordinal dt + 6"
  proof -
    from assms(1) have "1 \<le> d_year dt" by (simp add: valid_date_def valid_ymd_def)
    then have "0 \<le> days_before_year (d_year dt)"
      by (simp add: days_before_year_def Let_def) 
    then show ?thesis by (simp add: toordinal_def days_before_month_def)
  qed
  then obtain k where k: "toordinal dt + 6 = int k" by (metis nonneg_int_cases)
  have nm: "nat (int a mod 7) = a mod 7" for a :: nat
    by (simp add: nat_mod_distrib)
  have "toordinal r + 6 = int (k + n)" using o k by simp
  then have "weekday r = (k + n) mod 7" unfolding weekday_def by (simp only: nm)
  moreover have "weekday dt = k mod 7" unfolding weekday_def k by (simp only: nm)
  ultimately show ?thesis by (simp add: mod_add_left_eq)
qed

section \<open>Owners\<close>

lemma strip_keeps_head:
  assumes "\<not> is_space x"
  shows "\<exists>t'. strip (x # t) = x # t'"
proof -
  have "dropWhile is_space (rev t @ [x]) = (if \<forall>y\<in>set (rev t). is_space y then [x] else dropWhile is_space (rev t) @ [x])"
    using assms by (simp add: dropWhile_append)
  then obtain u where "dropWhile is_space (rev t @ [x]) = u @ [x]"
    by (metis append_Nil)
  then show ?thesis using assms by (simp add: strip_def lstrip_def rstrip_def)
qed

lemma AZ_cs: "atom_ok False AZ x \<longleftrightarrow> is_upper_az x"
  by (simp add: in_sets_def is_upper_az_def)

lemma AZ_ic: "atom_ok True AZ x \<Longrightarrow> is_upper_az x \<or> is_lower_az x"
  by (cases x rule: char_cases) (auto simp: in_sets_def char_defs char_nat split: if_splits)

lemma letter_not_space: "is_upper_az x \<or> is_lower_az x \<Longrightarrow> \<not> is_space x"
  by (cases x rule: char_cases) (auto simp: char_defs char_nat)

lemma re_search_result:
  assumes "re_search ic r s = Some m"
  shows "\<exists>p q. (q, m_caps m) \<in> set (matches ic r p [])"
  using search_from_Some[OF assms[unfolded re_search_def]] by blast

lemma re_match_result:
  assumes "re_match ic r s = Some m"
  shows "\<exists>p q. (q, m_caps m) \<in> set (matches ic r p [])"
proof -
  from assms obtain t rest c where ma: "match_at ic r (None, s) = Some (t, rest, c)"
    and m: "m = \<lparr>m_pre = [], m_text = t, m_post = rest, m_caps = c\<rparr>"
    by (auto simp: re_match_def split: option.splits)
  from match_at_Some[OF ma] m show ?thesis by auto
qed

lemma group_then_rest:
  assumes "(q, c') \<in> set (matches ic (Seq (Grp n (Seq (A a) r)) post) p c)" and "n \<notin> grps post"
  shows "\<exists>x t. atom_ok ic a x \<and> map_of c' n = Some (x # t)"
proof -
  from assms(1) obtain q1 c1 where
    g: "(q1, c1) \<in> set (matches ic (Grp n (Seq (A a) r)) p c)"
    and r: "(q, c') \<in> set (matches ic post q1 c1)"
    unfolding in_matches_Seq by blast
  from group_text_starts[OF g] obtain x t where "atom_ok ic a x" "map_of c1 n = Some (x # t)"
    by blast
  with matches_keeps_group[OF r assms(2)] show ?thesis by auto
qed

lemma skip_prefix:
  assumes "(q, c') \<in> set (matches ic (Seq pre r) p c)"
  shows "\<exists>p1 c1. (q, c') \<in> set (matches ic r p1 c1)"
  using assms unfolding in_matches_Seq by blast

lemma owner_field_capture:
  assumes "re_search False RE_OWNER_FIELD line = Some m"
  shows "\<exists>x t. group_str m 1 = x # t \<and> is_upper_az x"
proof -
  from re_search_result[OF assms] obtain p q where
    "(q, m_caps m) \<in> set (matches False RE_OWNER_FIELD p [])" by blast
  then have "\<exists>p1 c1. (q, m_caps m) \<in> set (matches False
      (Seq (Grp 1 (Seq (A AZ) (seqs [Rep az 1 None,
         Opt (seqs [Rep sp 1 None, A AZ, Rep az 1 None])]))) Eps) p1 c1)"
    unfolding RE_OWNER_FIELD_def name_re_def seqs_Cons
    by (metis skip_prefix seqs_def foldr.simps(1) id_apply)
  then obtain p1 c1 where "(q, m_caps m) \<in> set (matches False
      (Seq (Grp 1 (Seq (A AZ) (seqs [Rep az 1 None,
         Opt (seqs [Rep sp 1 None, A AZ, Rep az 1 None])]))) Eps) p1 c1)" by blast
  from group_then_rest[OF this] obtain x t where
    "atom_ok False AZ x" "map_of (m_caps m) 1 = Some (x # t)" by auto
  then show ?thesis using AZ_cs by (auto simp: group_str_def group_def)
qed

lemma owner_paren_capture:
  assumes "re_search True RE_OWNER_PAREN line = Some m"
  shows "\<exists>x t. group_str m 1 = x # t \<and> (is_upper_az x \<or> is_lower_az x)"
proof -
  from re_search_result[OF assms] obtain p q where
    "(q, m_caps m) \<in> set (matches True RE_OWNER_PAREN p [])" by blast
  then have "\<exists>p1 c1. (q, m_caps m) \<in> set (matches True
      (Seq (Grp 1 (Seq (A AZ) (seqs [Rep az 1 None,
         Opt (seqs [Rep sp 1 None, A AZ, Rep az 1 None])]))) (seqs [A (Lit CHR '')'')])) p1 c1)"
    unfolding RE_OWNER_PAREN_def name_re_def seqs_Cons
    by (metis skip_prefix)
  then obtain p1 c1 where "(q, m_caps m) \<in> set (matches True
      (Seq (Grp 1 (Seq (A AZ) (seqs [Rep az 1 None,
         Opt (seqs [Rep sp 1 None, A AZ, Rep az 1 None])]))) (seqs [A (Lit CHR '')'')])) p1 c1)"
    by blast
  from group_then_rest[OF this] obtain x t where
    "atom_ok True AZ x" "map_of (m_caps m) 1 = Some (x # t)" by auto
  then show ?thesis using AZ_ic by (auto simp: group_str_def group_def)
qed

lemma grps_verbs: "(\<Union>r\<in>set verbs. grps r) = {}"
  by (simp add: verbs_def)

lemma name_to_verb_capture:
  assumes "re_match True RE_NAME_TO_VERB line = Some m"
  shows "\<exists>x t. group_str m 1 = x # t \<and> (is_upper_az x \<or> is_lower_az x)"
proof -
  let ?post = "seqs [Rep sp 1 None, str ''to'', Rep sp 1 None, Grp 2 (alts verbs), WordB,
     Opt (Grp 3 (Rep Dot 1 None))]"
  from re_match_result[OF assms] obtain p q where
    "(q, m_caps m) \<in> set (matches True RE_NAME_TO_VERB p [])" by blast
  then have "\<exists>p1 c1. (q, m_caps m) \<in> set (matches True
      (Seq (Grp 1 (Seq (A AZ) (seqs [Rep az 1 None]))) ?post) p1 c1)"
    unfolding RE_NAME_TO_VERB_def seqs_Cons
    by (metis skip_prefix)
  then obtain p1 c1 where "(q, m_caps m) \<in> set (matches True
      (Seq (Grp 1 (Seq (A AZ) (seqs [Rep az 1 None]))) ?post) p1 c1)"
    by blast
  moreover have "1 \<notin> grps ?post" by (simp add: grps_verbs)
  ultimately obtain x t where
    "atom_ok True AZ x" "map_of (m_caps m) 1 = Some (x # t)"
    using group_then_rest by blast
  then show ?thesis using AZ_ic by (auto simp: group_str_def group_def)
qed

lemma extract_owner_nonempty: "extract_owner line \<noteq> []"
proof (cases "re_search False RE_OWNER_FIELD line")
  case (Some m)
  from owner_field_capture[OF Some] obtain x t where
    "group_str m 1 = x # t" "is_upper_az x" by blast
  then show ?thesis using Some strip_keeps_head[of x t] letter_not_space[of x]
    by (auto simp: extract_owner_def)
next
  case None
  show ?thesis
  proof (cases "re_search True RE_OWNER_PAREN line")
    case (Some m)
    from owner_paren_capture[OF Some] obtain x t where
      "group_str m 1 = x # t" "is_upper_az x \<or> is_lower_az x" by blast
    then show ?thesis using None Some strip_keeps_head[of x t] letter_not_space[of x]
      by (auto simp: extract_owner_def)
  next
    case n2: None
    with None show ?thesis by (simp add: extract_owner_def)
  qed
qed

lemma classify_owner_nonempty:
  assumes "classify line = Some (tt, inferred)"
  shows "inferred \<noteq> []"
proof (cases "inferred = ''unassigned''")
  case True
  then show ?thesis by simp
next
  case False
  with assms obtain m where "re_match True RE_NAME_TO_VERB line = Some m"
    "inferred = group_str m 1"
    by (auto simp: classify_def split: option.splits if_splits)
  with name_to_verb_capture show ?thesis by fastforce
qed

section \<open>The invariants of the returned items\<close>

text \<open>
  C1. Every item that \<open>parse_meeting_notes\<close> returns has a non-empty task, a due date that
  is empty or a valid calendar date in the form \<open>YYYY-MM-DD\<close>, a priority among \<open>low\<close>,
  \<open>normal\<close>, \<open>high\<close>, \<open>critical\<close>, and an owner that is \<open>unassigned\<close> or a non-empty
  name. (\<open>today\<close> is a valid date, as \<open>date.today()\<close> is.)
\<close>

theorem parsed_items_well_formed:
  assumes "valid_date today" and "parse_meeting_notes today text = Inr items"
    and "it \<in> set items"
  shows "task it \<noteq> []
    \<and> (due_date it = [] \<or> iso_date_text (due_date it))
    \<and> priority it \<in> {''low'', ''normal'', ''high'', ''critical''}
    \<and> (owner it = ''unassigned'' \<or> owner it \<noteq> [])"
proof -
  let ?P = "\<lambda>it. task it \<noteq> []
    \<and> (due_date it = [] \<or> iso_date_text (due_date it))
    \<and> priority it \<in> {''low'', ''normal'', ''high'', ''critical''}
    \<and> (owner it = ''unassigned'' \<or> owner it \<noteq> [])"
  have "\<forall>it\<in>set items. ?P it"
  proof (rule parse_lines_invariant[where today = today and ls = "splitlines text" and acc = "[]"])
    fix raw it
    assume pl: "parse_line today raw = Inr (Some it)"
    note f = parse_line_fields[OF pl]
    have "due_date it = [] \<or> iso_date_text (due_date it)"
      using extract_due_date_result[OF assms(1) f(3)] .
    moreover have "priority it \<in> {''low'', ''normal'', ''high'', ''critical''}"
      using extract_priority_range[of "strip raw"] f(2) by auto
    moreover have "owner it \<noteq> []"
      using f(4) extract_owner_nonempty[of "strip raw"] classify_owner_nonempty
      by (auto split: if_splits)
    ultimately show "?P it" using f(1) by simp
  next
    show "parse_lines today (splitlines text) [] = Inr items"
      using assms(2) by (simp add: parse_meeting_notes_def)
  qed simp
  with assms(3) show ?thesis by blast
qed

lemma parse_short_todo:
  "parse_meeting_notes \<lparr>d_year = 2026, d_month = 2, d_day = 6\<rparr>
     ''TODO: Go. Owner: Al. Due: 3/1''
   = Inr [\<lparr>task = ''Go'', owner = ''Al'', due_date = ''2026-03-01'',
           priority = ''normal'',
           raw_line = ''TODO: Go. Owner: Al. Due: 3/1''\<rparr>]"
  by code_simp

theorem parsed_items_well_formed_witness:
  "valid_date \<lparr>d_year = 2026, d_month = 2, d_day = 6\<rparr>
   \<and> parse_meeting_notes \<lparr>d_year = 2026, d_month = 2, d_day = 6\<rparr>
        ''TODO: Go. Owner: Al. Due: 3/1''
      = Inr [\<lparr>task = ''Go'', owner = ''Al'', due_date = ''2026-03-01'',
              priority = ''normal'',
              raw_line = ''TODO: Go. Owner: Al. Due: 3/1''\<rparr>]
   \<and> iso_date_text ''2026-03-01''"
proof -
  have v: "valid_date \<lparr>d_year = 2026, d_month = 2, d_day = 6\<rparr>"
    by (simp add: valid_date_def valid_ymd_def days_in_month_def is_leap_def)
  from parsed_items_well_formed[OF v parse_short_todo, of
      "\<lparr>task = ''Go'', owner = ''Al'', due_date = ''2026-03-01'',
        priority = ''normal'',
        raw_line = ''TODO: Go. Owner: Al. Due: 3/1''\<rparr>"]
  have "iso_date_text ''2026-03-01''" by simp
  with v parse_short_todo show ?thesis by simp
qed

section \<open>ISO dates pass through \<open>normalize_date\<close>\<close>

lemma digit_char_mod: "digit_char (10 * x + y) = digit_char y"
  by (simp add: digit_char_def)

lemma dec2_int_of:
  assumes "is_digit a" and "is_digit b"
  shows "dec2 (int_of_digits [a, b]) = [a, b]"
proof -
  let ?x = "digit_val a" and ?y = "digit_val b"
  have lt: "?x < 10" "?y < 10" using assms digit_val_less by auto
  have "(10 * ?x + ?y) div 10 = ?x" using lt by simp
  moreover have "digit_char ?x = a" "digit_char ?y = b"
    using assms digit_char_digit_val by auto
  moreover have "digit_char (10 * ?x + ?y) = digit_char ?y" by (rule digit_char_mod)
  ultimately show ?thesis by (simp add: dec2_def int_of_digits_def)
qed

lemma dec4_int_of:
  assumes "is_digit a" and "is_digit b" and "is_digit c" and "is_digit d"
  shows "dec4 (int_of_digits [a, b, c, d]) = [a, b, c, d]"
proof -
  let ?a = "digit_val a" and ?b = "digit_val b" and ?c = "digit_val c" and ?d = "digit_val d"
  let ?n = "10 * (10 * (10 * ?a + ?b) + ?c) + ?d"
  have lt: "?a < 10" "?b < 10" "?c < 10" "?d < 10" using assms digit_val_less by auto
  have n: "int_of_digits [a, b, c, d] = ?n" by (simp add: int_of_digits_def)
  have d1: "?n div 10 = 10 * (10 * ?a + ?b) + ?c" using lt by simp
  have d2: "?n div 100 = 10 * ?a + ?b" using lt by simp
  have d3: "?n div 1000 = ?a" using lt by simp
  have e: "digit_char ?a = a" "digit_char ?b = b" "digit_char ?c = c" "digit_char ?d = d"
    using assms digit_char_digit_val by auto
  have "digit_char (?n div 1000) = a" by (simp only: d3 e)
  moreover have "digit_char (?n div 100) = b" by (simp only: d2 digit_char_mod e)
  moreover have "digit_char (?n div 10) = c" by (simp only: d1 digit_char_mod e)
  moreover have "digit_char ?n = d" by (simp only: digit_char_mod e)
  ultimately show ?thesis
    unfolding n dec4_def by (simp only:)
qed

lemma length10:
  assumes "length s = 10"
  obtains c0 c1 c2 c3 c4 c5 c6 c7 c8 c9 where "s = [c0, c1, c2, c3, c4, c5, c6, c7, c8, c9]"
proof -
  from assms have "length s = Suc (Suc (Suc (Suc (Suc (Suc (Suc (Suc (Suc (Suc 0)))))))))"
    by simp
  then show ?thesis using that by (auto simp: length_Suc_conv)
qed

lemma strip_id:
  assumes "s \<noteq> []" and "\<not> is_space (hd s)" and "\<not> is_space (last s)"
  shows "strip s = s"
proof -
  have "lstrip s = s" using assms by (cases s) (auto simp: lstrip_def)
  moreover have "rstrip s = s"
    using assms by (cases s rule: rev_cases) (auto simp: rstrip_def)
  ultimately show ?thesis by (simp add: strip_def)
qed

lemma iso_text_parses:
  assumes "iso_date_text s"
  shows "\<exists>dt. fromisoformat s = Some dt \<and> isoformat dt = s"
proof -
  from assms have len: "length s = 10" by (simp add: iso_date_text_def)
  then obtain c0 c1 c2 c3 c4 c5 c6 c7 c8 c9 where s: "s = [c0, c1, c2, c3, c4, c5, c6, c7, c8, c9]"
    by (rule length10)
  from assms have d: "is_digit c0" "is_digit c1" "is_digit c2" "is_digit c3" "c4 = CHR ''-''"
    "is_digit c5" "is_digit c6" "c7 = CHR ''-''" "is_digit c8" "is_digit c9"
    and v: "valid_ymd (int_of_digits [c0, c1, c2, c3]) (int_of_digits [c5, c6])
              (int_of_digits [c8, c9])"
    unfolding s iso_date_text_def by simp_all
  let ?dt = "\<lparr>d_year = int_of_digits [c0, c1, c2, c3], d_month = int_of_digits [c5, c6],
     d_day = int_of_digits [c8, c9]\<rparr>"
  have "fromisoformat s = Some ?dt"
    unfolding s fromisoformat_def mk_date_def using d v by simp
  moreover have "isoformat ?dt = s"
    unfolding s isoformat_def using d by (simp add: dec4_int_of dec2_int_of)
  ultimately show ?thesis by blast
qed

text \<open>
  C7. For every text \<open>d\<close> of the form \<open>YYYY-MM-DD\<close> that names a date of the calendar
  (years 1 to 9999, the range of \<open>datetime.date\<close>), \<open>normalize_date\<close> returns \<open>d\<close>
  itself: the ISO branch comes first, accepts \<open>d\<close> and prints it back unchanged.
\<close>

theorem normalize_iso_fixed:
  assumes "iso_date_text d"
  shows "normalize_date today d = Inr d"
proof -
  from assms have len: "length d = 10" and dg: "list_all is_digit (take 4 d)"
    "list_all is_digit (drop 8 d)"
    by (simp_all add: iso_date_text_def)
  from len have ne: "d \<noteq> []" by auto
  have "is_digit (hd d)" using dg(1) len by (cases d) auto
  moreover have "is_digit (last d)"
  proof -
    have "last d = last (drop 8 d)" using len by simp
    moreover have "drop 8 d \<noteq> []" using len by simp
    ultimately show ?thesis using dg(2) by (metis last_in_set list_all_iff)
  qed
  ultimately have st: "strip d = d" using ne digit_not_space by (intro strip_id) auto
  from iso_text_parses[OF assms] obtain dt where "fromisoformat d = Some dt" "isoformat dt = d"
    by blast
  then show ?thesis using st ne by (simp add: normalize_date_def)
qed

theorem normalize_iso_fixed_witness:
  "iso_date_text ''2026-02-28''
   \<and> normalize_date \<lparr>d_year = 2026, d_month = 2, d_day = 6\<rparr> ''2026-02-28'' = Inr ''2026-02-28''"
proof -
  have i: "iso_date_text ''2026-02-28''"
    by (simp add: iso_date_text_def is_digit_def int_of_digits_def digit_val_def valid_ymd_def
        days_in_month_def is_leap_def)
  from normalize_iso_fixed[OF i, of "\<lparr>d_year = 2026, d_month = 2, d_day = 6\<rparr>"] i
  show ?thesis by simp
qed

section \<open>Slash dates\<close>

lemmas eval_re = re_fullmatch_def seqs_def str_def Let_def advance_def in_sets_def
  group_str_def group_def

lemmas eval_norm = normalize_date_def normalize_free_form_def slash_date_def fromisoformat_def
  strip_def lstrip_def rstrip_def lower_def RE_QUARTER_def RE_NEXT_def RE_SLASH_def

lemma slash_char:
  "\<not> is_digit CHR ''/''" "\<not> is_space CHR ''/''" "lower_char CHR ''/'' = CHR ''/''"
  by (simp_all add: is_digit_def is_space_def lower_char_def is_upper_az_def)

lemma two_to_four:
  assumes "list_all is_digit y" and "length y = 2 \<or> length y = 3 \<or> length y = 4"
  obtains a b where "y = [a, b]" "is_digit a" "is_digit b"
  | a b c where "y = [a, b, c]" "is_digit a" "is_digit b" "is_digit c"
  | a b c d where "y = [a, b, c, d]" "is_digit a" "is_digit b" "is_digit c" "is_digit d"
proof -
  from assms(2) consider "length y = Suc (Suc 0)" | "length y = Suc (Suc (Suc 0))"
    | "length y = Suc (Suc (Suc (Suc 0)))" by auto
  then show ?thesis
  proof cases
    case 1
    then obtain a b where "y = [a, b]" by (auto simp: length_Suc_conv)
    with assms(1) that(1) show ?thesis by simp
  next
    case 2
    then obtain a b c where "y = [a, b, c]" by (auto simp: length_Suc_conv)
    with assms(1) that(2) show ?thesis by simp
  next
    case 3
    then obtain a b c d where "y = [a, b, c, d]" by (auto simp: length_Suc_conv)
    with assms(1) that(3) show ?thesis by simp
  qed
qed

lemma one_or_two:
  assumes "list_all is_digit m" and "length m = 1 \<or> length m = 2"
  obtains a where "m = [a]" "is_digit a" | a b where "m = [a, b]" "is_digit a" "is_digit b"
proof -
  from assms(2) consider "length m = Suc 0" | "length m = Suc (Suc 0)" by auto
  then show ?thesis
  proof cases
    case 1
    then obtain a where "m = [a]" by (auto simp: length_Suc_conv)
    with assms(1) that(1) show ?thesis by simp
  next
    case 2
    then obtain a b where "m = [a, b]" by (auto simp: length_Suc_conv)
    with assms(1) that(2) show ?thesis by simp
  qed
qed

lemma slash_no_year:
  assumes "list_all is_digit m" "length m = 1 \<or> length m = 2"
    and "list_all is_digit d" "length d = 1 \<or> length d = 2"
  shows "normalize_date today (m @ ''/'' @ d)
    = Inr (date_or_empty (d_year today) (int_of_digits m) (int_of_digits d))"
proof -
  from assms(1,2) show ?thesis
  proof (cases rule: one_or_two)
    case (1 a)
    from assms(3,4) show ?thesis
    proof (cases rule: one_or_two)
      case (1 c)
      with \<open>m = [a]\<close> \<open>is_digit a\<close> show ?thesis
        by (simp add: eval_norm eval_re digit_facts digit_not_space slash_char)
    next
      case (2 c e)
      with \<open>m = [a]\<close> \<open>is_digit a\<close> show ?thesis
        by (simp add: eval_norm eval_re digit_facts digit_not_space slash_char)
    qed
  next
    case (2 a b)
    from assms(3,4) show ?thesis
    proof (cases rule: one_or_two)
      case (1 c)
      with \<open>m = [a, b]\<close> \<open>is_digit a\<close> \<open>is_digit b\<close> show ?thesis
        by (simp add: eval_norm eval_re digit_facts digit_not_space slash_char)
    next
      case (2 c e)
      with \<open>m = [a, b]\<close> \<open>is_digit a\<close> \<open>is_digit b\<close> show ?thesis
        by (simp add: eval_norm eval_re digit_facts digit_not_space slash_char)
    qed
  qed
qed

lemma slash_year_explicit:
  assumes "is_digit a" "list_all is_digit m'" "length m' \<le> 1"
    and "is_digit c" "list_all is_digit d'" "length d' \<le> 1"
    and "list_all is_digit y" "length y = 2 \<or> length y = 3 \<or> length y = 4"
  shows "normalize_date today ((a # m') @ ''/'' @ (c # d') @ ''/'' @ y)
    = Inr (date_or_empty (slash_year y) (int_of_digits (a # m')) (int_of_digits (c # d')))"
proof -
  from assms(2,3) consider "m' = []" | b where "m' = [b]" "is_digit b"
    by (cases m') auto
  then show ?thesis
  proof cases
    case 1
    from assms(5,6) consider "d' = []" | e where "d' = [e]" "is_digit e"
      by (cases d') auto
    then show ?thesis
    proof cases
      case 1
      from assms(7,8) show ?thesis
        by (cases rule: two_to_four)
          (use \<open>m' = []\<close> \<open>d' = []\<close> assms(1,4) in
            \<open>simp_all add: eval_norm eval_re digit_facts digit_not_space slash_char slash_year_def\<close>)
    next
      case 2
      from assms(7,8) show ?thesis
        by (cases rule: two_to_four)
          (use \<open>m' = []\<close> 2 assms(1,4) in
            \<open>simp_all add: eval_norm eval_re digit_facts digit_not_space slash_char slash_year_def\<close>)
    qed
  next
    case 2
    note m2 = 2
    from assms(5,6) consider "d' = []" | e where "d' = [e]" "is_digit e"
      by (cases d') auto
    then show ?thesis
    proof cases
      case 1
      from assms(7,8) show ?thesis
        by (cases rule: two_to_four)
          (use m2 \<open>d' = []\<close> assms(1,4) in
            \<open>simp_all add: eval_norm eval_re digit_facts digit_not_space slash_char slash_year_def\<close>)
    next
      case 2
      from assms(7,8) show ?thesis
        by (cases rule: two_to_four)
          (use m2 2 assms(1,4) in
            \<open>simp_all add: eval_norm eval_re digit_facts digit_not_space slash_char slash_year_def\<close>)
    qed
  qed
qed

lemma int_two_digits: "list_all is_digit y \<Longrightarrow> length y = 2 \<Longrightarrow> int_of_digits y < 100"
proof -
  assume a: "list_all is_digit y" "length y = 2"
  then obtain p q where y: "y = [p, q]" by (auto simp: length_Suc_conv numeral_2_eq_2)
  with a digit_val_less[of p] digit_val_less[of q] show ?thesis
    by (simp add: int_of_digits_def)
qed

lemma slash_with_year:
  assumes "list_all is_digit m" "length m = 1 \<or> length m = 2"
    and "list_all is_digit d" "length d = 1 \<or> length d = 2"
    and "list_all is_digit y" "length y = 2 \<or> length y = 3 \<or> length y = 4"
  shows "normalize_date today (m @ ''/'' @ d @ ''/'' @ y)
    = Inr (date_or_empty (slash_year y) (int_of_digits m) (int_of_digits d))"
proof -
  from assms(1,2) obtain a m' where m: "m = a # m'" "is_digit a" "list_all is_digit m'" "length m' \<le> 1"
    by (cases m) auto
  from assms(3,4) obtain c d' where d: "d = c # d'" "is_digit c" "list_all is_digit d'" "length d' \<le> 1"
    by (cases d) auto
  show ?thesis unfolding m(1) d(1)
    by (rule slash_year_explicit[OF m(2,3,4) d(2,3,4) assms(5,6)])
qed

text \<open>
  C8. A slash date of one or two digits for the month and for the day: without a year, the
  year is the current one; a two-digit year counts from 2000 (a longer one below 100 too,
  and any other is taken as it is); values that name no date of the calendar give the
  empty text. So \<open>2/20\<close> in 2026 and \<open>2/20/26\<close> give \<open>2026-02-20\<close>, and \<open>13/40\<close>
  gives the empty text.
\<close>

theorem slash_dates:
  "(list_all is_digit m \<and> (length m = 1 \<or> length m = 2)
      \<and> list_all is_digit d \<and> (length d = 1 \<or> length d = 2) \<longrightarrow>
      normalize_date today (m @ ''/'' @ d)
        = Inr (date_or_empty (d_year today) (int_of_digits m) (int_of_digits d))
      \<and> (list_all is_digit y \<and> length y = 2 \<longrightarrow>
           normalize_date today (m @ ''/'' @ d @ ''/'' @ y)
             = Inr (date_or_empty (2000 + int_of_digits y) (int_of_digits m) (int_of_digits d)))
      \<and> (list_all is_digit y \<and> (length y = 3 \<or> length y = 4) \<longrightarrow>
           normalize_date today (m @ ''/'' @ d @ ''/'' @ y)
             = Inr (date_or_empty (slash_year y) (int_of_digits m) (int_of_digits d))))
   \<and> date_or_empty yr mo dy
       = (if valid_ymd yr mo dy then isoformat \<lparr>d_year = yr, d_month = mo, d_day = dy\<rparr> else [])
   \<and> (d_year today = 2026 \<longrightarrow> normalize_date today ''2/20'' = Inr ''2026-02-20'')
   \<and> normalize_date today ''2/20/26'' = Inr ''2026-02-20''
   \<and> normalize_date today ''13/40'' = Inr []"
proof -
  have dg: "list_all is_digit ''2''" "list_all is_digit ''20''" "list_all is_digit ''26''"
    "list_all is_digit ''13''" "list_all is_digit ''40''"
    by (simp_all add: is_digit_def)
  have iv: "int_of_digits ''2'' = 2" "int_of_digits ''20'' = 20" "int_of_digits ''26'' = 26"
    "int_of_digits ''13'' = 13" "int_of_digits ''40'' = 40"
    by (simp_all add: int_of_digits_def digit_val_def)
  have feb: "date_or_empty 2026 2 20 = ''2026-02-20''"
    by code_simp
  have bad: "date_or_empty yy 13 40 = []" for yy
    by (simp add: date_or_empty_def mk_date_def valid_ymd_def)
  have a: "normalize_date today ''2/20'' = Inr (date_or_empty (d_year today) 2 20)"
    using slash_no_year[of "''2''" "''20''" today] dg iv by simp
  have b: "normalize_date today ''2/20/26'' = Inr ''2026-02-20''"
    using slash_with_year[of "''2''" "''20''" "''26''" today] dg iv feb
    by (simp add: slash_year_def)
  have c: "normalize_date today ''13/40'' = Inr []"
    using slash_no_year[of "''13''" "''40''" today] dg iv bad by simp
  have e: "date_or_empty yr mo dy
       = (if valid_ymd yr mo dy then isoformat \<lparr>d_year = yr, d_month = mo, d_day = dy\<rparr> else [])"
    by (simp add: date_or_empty_def mk_date_def)
  have y2: "slash_year y = 2000 + int_of_digits y" if "list_all is_digit y" "length y = 2"
    using int_two_digits[OF that] by (simp add: slash_year_def)
  show ?thesis
    using slash_no_year[of m d today] slash_with_year[of m d y today] a b c e y2 feb
    by auto
qed

theorem slash_dates_witness:
  "list_all is_digit ''2'' \<and> length ''2'' = 1 \<and> list_all is_digit ''20'' \<and> length ''20'' = 2
   \<and> list_all is_digit ''26'' \<and> length ''26'' = 2
   \<and> d_year \<lparr>d_year = 2026, d_month = 2, d_day = 6\<rparr> = 2026
   \<and> normalize_date \<lparr>d_year = 2026, d_month = 2, d_day = 6\<rparr> (''2'' @ ''/'' @ ''20'')
       = Inr (date_or_empty 2026 (int_of_digits ''2'') (int_of_digits ''20''))
   \<and> normalize_date \<lparr>d_year = 2026, d_month = 2, d_day = 6\<rparr> (''2'' @ ''/'' @ ''20'' @ ''/'' @ ''26'')
       = Inr (date_or_empty (2000 + int_of_digits ''26'') (int_of_digits ''2'') (int_of_digits ''20''))
   \<and> normalize_date \<lparr>d_year = 2026, d_month = 2, d_day = 6\<rparr> ''2/20'' = Inr ''2026-02-20''
   \<and> \<not> valid_ymd 2026 13 40 \<and> date_or_empty 2026 13 40 = []"
proof -
  have h: "list_all is_digit ''2''" "length ''2'' = 1" "list_all is_digit ''20''" "length ''20'' = 2"
    "list_all is_digit ''26''" "length ''26'' = 2"
    by (simp_all add: is_digit_def)
  have v: "\<not> valid_ymd 2026 13 40" by (simp add: valid_ymd_def)
  note t = slash_dates[of "''2''" "''20''" "\<lparr>d_year = 2026, d_month = 2, d_day = 6\<rparr>" "''26''"
      2026 13 40]
  from t h have "normalize_date \<lparr>d_year = 2026, d_month = 2, d_day = 6\<rparr> (''2'' @ ''/'' @ ''20'')
       = Inr (date_or_empty 2026 (int_of_digits ''2'') (int_of_digits ''20''))"
    by simp
  moreover from t h have
    "normalize_date \<lparr>d_year = 2026, d_month = 2, d_day = 6\<rparr> (''2'' @ ''/'' @ ''20'' @ ''/'' @ ''26'')
       = Inr (date_or_empty (2000 + int_of_digits ''26'') (int_of_digits ''2'') (int_of_digits ''20''))"
    by simp
  moreover from t have
    "normalize_date \<lparr>d_year = 2026, d_month = 2, d_day = 6\<rparr> ''2/20'' = Inr ''2026-02-20''"
    by simp
  moreover from t v have "date_or_empty 2026 13 40 = []" by simp
  ultimately show ?thesis using h v by simp
qed

section \<open>The next weekday\<close>

lemma fullmatch_next:
  assumes "v \<noteq> []" and "list_all is_word v"
  shows "\<exists>m. re_fullmatch False RE_NEXT (''next '' @ v) = Some m \<and> group_str m 1 = v"
proof -
  have hd_ns: "\<not> is_space (hd v)"
    using assms by (cases v) (auto simp: word_not_space)
  have s1: "matches False (str ''next'') (None, ''next '' @ v) [] = [((Some CHR ''t'', '' '' @ v), [])]"
    by (simp add: str_def)
  have tw: "takeWhile (atom_ok False sp) (CHR '' '' # v) = '' ''"
    using takeWhile_none[OF assms(1), of is_space] hd_ns
    by (simp add: atom_cs is_space_def[of "CHR '' ''"])
  have s2: "matches False (Rep sp 1 None) (Some CHR ''t'', '' '' @ v) [] = [((Some CHR '' '', v), [])]"
    using tw by (simp add: advance_def)
  have len: "1 \<le> length v" using assms(1) by (cases v) auto
  have "list_all (atom_ok False wd) v" using assms(2) by (simp add: atom_cs)
  from matches_Rep_all[OF this len, of "Some CHR '' ''" "[]"]
  obtain rest where "matches False (Rep wd 1 None) (Some CHR '' '', v) []
      = (advance (length v) (Some CHR '' '', v), []) # rest" by blast
  from matches_Grp_Cons[OF this, of 1] obtain rest' where
    s3: "matches False (Grp 1 (Rep wd 1 None)) (Some CHR '' '', v) []
      = (advance (length v) (Some CHR '' '', v), [(1, v)]) # rest'"
    by (auto simp: snd_advance)
  have "matches False RE_NEXT (None, ''next '' @ v) []
      = (advance (length v) (Some CHR '' '', v), [(1, v)]) # rest'"
    unfolding RE_NEXT_def seqs_def foldr.simps o_apply id_apply
    by (simp only: matches_Seq_single[OF s1] matches_Seq_single[OF s2] matches_Seq_Eps s3)
  from fullmatch_head[OF this] show ?thesis
    by (simp add: snd_advance group_str_def group_def)
qed

lemma names_lower: "\<forall>(k, t) \<in> set
     [(''monday'', 0::nat), (''mon'', 0),
      (''tuesday'', 1), (''tue'', 1), (''tues'', 1),
      (''wednesday'', 2), (''wed'', 2),
      (''thursday'', 3), (''thu'', 3), (''thurs'', 3), (''thur'', 3),
      (''friday'', 4), (''fri'', 4),
      (''saturday'', 5), (''sat'', 5),
      (''sunday'', 6), (''sun'', 6)]. t < 7 \<and> k \<noteq> [] \<and> list_all is_lower_az k"
  by (simp add: is_lower_az_def)

lemma day_name_facts:
  assumes "DAY_NAMES k = Some t"
  shows "t < 7 \<and> k \<noteq> [] \<and> list_all is_lower_az k"
proof -
  from assms have "(k, t) \<in> set
     [(''monday'', 0::nat), (''mon'', 0),
      (''tuesday'', 1), (''tue'', 1), (''tues'', 1),
      (''wednesday'', 2), (''wed'', 2),
      (''thursday'', 3), (''thu'', 3), (''thurs'', 3), (''thur'', 3),
      (''friday'', 4), (''fri'', 4),
      (''saturday'', 5), (''sat'', 5),
      (''sunday'', 6), (''sun'', 6)]"
    unfolding DAY_NAMES_def by (rule map_of_SomeD)
  with names_lower show ?thesis by blast
qed

lemma offset_nat:
  fixes c t k :: nat
  assumes "c < 7" "t < 7"
    and kd: "k = nat (if (int t - int c) mod 7 = 0 then 7 else (int t - int c) mod 7)"
  shows "1 \<le> k \<and> k \<le> 7 \<and> (c + k) mod 7 = t \<and> (k = 7 \<longleftrightarrow> c = t)"
proof -
  consider (eq) "t = c" | (gt) "c < t" | (lt) "t < c" by linarith
  then show ?thesis
  proof cases
    case eq
    then have "k = 7" by (simp add: kd)
    with eq assms(1) show ?thesis by simp
  next
    case gt
    define e where "e = t - c"
    have e: "0 < e" "e < 7" "t = c + e" using gt assms by (simp_all add: e_def)
    have "int t - int c = int e" using e by simp
    then have "(int t - int c) mod 7 = int e" using e by simp
    then have "k = e" using e by (simp add: kd)
    with e assms show ?thesis by simp
  next
    case lt
    define e where "e = t + 7 - c"
    have e: "0 < e" "e < 7" "c + e = t + 7" using lt assms by (simp_all add: e_def)
    have "(int t - int c) mod 7 = (int t - int c + 7) mod 7" by simp
    moreover have "int t - int c + 7 = int e" using e by linarith
    ultimately have "(int t - int c) mod 7 = int e" using e by simp
    then have k: "k = e" using e by (simp add: kd)
    have "(c + k) mod 7 = t" unfolding k e(3) using assms by simp
    with k lt e show ?thesis by simp
  qed
qed

section \<open>The order of \<open>sort_items\<close>\<close>

lemma lex4_le:
  fixes a1 a2 :: "'a::linorder" and b1 b2 :: "'b::linorder"
    and c1 c2 :: "'c::linorder" and d1 d2 :: "'d::linorder"
  assumes "(a1, b1, c1, d1) \<le> (a2, b2, c2, d2)"
  shows "a1 \<le> a2 \<and> (a1 = a2 \<longrightarrow> b1 \<le> b2 \<and> (b1 = b2 \<longrightarrow> c1 \<le> c2 \<and> (c1 = c2 \<longrightarrow> d1 \<le> d2)))"
  using assms by (auto simp: less_eq_prod_def less_le)

lemma key_le_in_order:
  assumes "sort_key_of a \<le> sort_key_of b"
  shows "in_order a b"
proof -
  have k: "(owner_unknown a, lower (owner a), due_date a = [], due_date a)
         \<le> (owner_unknown b, lower (owner b), due_date b = [], due_date b)"
    using assms by (simp add: sort_key_of_def owner_unknown_def Let_def)
  note l = lex4_le[OF k]
  have same: "lower (owner a) = lower (owner b) \<Longrightarrow> owner_unknown a = owner_unknown b"
    by (simp add: owner_unknown_def)
  show ?thesis unfolding in_order_def using l same by (auto simp: le_bool_def)
qed

lemma sorted_sort_items: "sorted (map sort_key_of (sort_items xs))"
  by (simp add: sort_items_def)

lemma sort_items_pairs:
  assumes "i < j" and "j < length (sort_items xs)"
  shows "in_order (sort_items xs ! i) (sort_items xs ! j)"
proof -
  let ?ks = "map sort_key_of (sort_items xs)"
  have "?ks ! i \<le> ?ks ! j"
    using sorted_sort_items assms by (intro sorted_nth_mono) auto
  then show ?thesis using assms by (simp add: key_le_in_order)
qed

lemma sort_items_same_fields:
  "filter (\<lambda>x. owner x = w \<and> due_date x = d) (sort_items xs)
   = filter (\<lambda>x. owner x = w \<and> due_date x = d) xs"
proof -
  define k where "k = (lower w = [] \<or> lower w = ''unassigned'', lower w, d = [], d)"
  have imp: "\<And>x. owner x = w \<and> due_date x = d \<Longrightarrow> sort_key_of x = k"
    by (auto simp: sort_key_of_def k_def Let_def)
  have "filter (\<lambda>x. owner x = w \<and> due_date x = d) ys
      = filter (\<lambda>x. owner x = w \<and> due_date x = d) (filter (\<lambda>x. sort_key_of x = k) ys)" for ys
    using imp by (induction ys) auto
  then show ?thesis
    unfolding sort_items_def by (metis (no_types) sort_key_stable[of sort_key_of k xs])
qed

text \<open>
  C4. \<open>sort_items\<close> returns a permutation of its input in which any earlier item is
  \<open>in_order\<close> with any later one: an item with a known owner never follows one whose owner
  is unknown (empty or \<open>unassigned\<close>, read without case as the key reads it); within a
  group the lower-cased owners ascend; for one owner the items with a due date come before
  those without, and the due dates ascend. Items with the same sort key, and so items with
  the same owner and due date, keep the order they had in the input.
\<close>

theorem sort_items_stable_order:
  "mset (sort_items xs) = mset xs
   \<and> (\<forall>i j. i < j \<and> j < length (sort_items xs)
         \<longrightarrow> in_order (sort_items xs ! i) (sort_items xs ! j))
   \<and> (\<forall>k. filter (\<lambda>x. sort_key_of x = k) (sort_items xs) = filter (\<lambda>x. sort_key_of x = k) xs)
   \<and> (\<forall>w d. filter (\<lambda>x. owner x = w \<and> due_date x = d) (sort_items xs)
            = filter (\<lambda>x. owner x = w \<and> due_date x = d) xs)"
  using sort_items_pairs sort_items_same_fields
  by (simp add: sort_items_def sort_key_stable)

lemma sort_two_items:
  "sort_items
     [\<lparr>task = ''t1'', owner = ''unassigned'', due_date = [], priority = ''normal'', raw_line = []\<rparr>,
      \<lparr>task = ''t2'', owner = ''Bob'', due_date = ''2026-03-01'', priority = ''normal'',
        raw_line = []\<rparr>]
   = [\<lparr>task = ''t2'', owner = ''Bob'', due_date = ''2026-03-01'', priority = ''normal'',
        raw_line = []\<rparr>,
      \<lparr>task = ''t1'', owner = ''unassigned'', due_date = [], priority = ''normal'', raw_line = []\<rparr>]"
  by (simp add: sort_items_def sort_key_of_def lower_def lower_char_def is_upper_az_def
      less_eq_prod_def)

theorem sort_items_stable_order_witness:
  "(0::nat) < 1
   \<and> 1 < length (sort_items
       [\<lparr>task = ''t1'', owner = ''unassigned'', due_date = [], priority = ''normal'',
          raw_line = []\<rparr>,
        \<lparr>task = ''t2'', owner = ''Bob'', due_date = ''2026-03-01'', priority = ''normal'',
          raw_line = []\<rparr>])
   \<and> in_order
       \<lparr>task = ''t2'', owner = ''Bob'', due_date = ''2026-03-01'', priority = ''normal'',
         raw_line = []\<rparr>
       \<lparr>task = ''t1'', owner = ''unassigned'', due_date = [], priority = ''normal'', raw_line = []\<rparr>
   \<and> \<not> owner_unknown \<lparr>task = ''t2'', owner = ''Bob'', due_date = ''2026-03-01'',
         priority = ''normal'', raw_line = []\<rparr>
   \<and> owner_unknown \<lparr>task = ''t1'', owner = ''unassigned'', due_date = [], priority = ''normal'',
         raw_line = []\<rparr>"
proof -
  let ?xs = "[\<lparr>task = ''t1'', owner = ''unassigned'', due_date = [], priority = ''normal'',
          raw_line = []\<rparr>,
        \<lparr>task = ''t2'', owner = ''Bob'', due_date = ''2026-03-01'', priority = ''normal'',
          raw_line = []\<rparr>]"
  have len: "1 < length (sort_items ?xs)" by (simp add: sort_items_def)
  have "in_order (sort_items ?xs ! 0) (sort_items ?xs ! 1)"
    using sort_items_stable_order[of ?xs] len by blast
  then have "in_order
       \<lparr>task = ''t2'', owner = ''Bob'', due_date = ''2026-03-01'', priority = ''normal'',
         raw_line = []\<rparr>
       \<lparr>task = ''t1'', owner = ''unassigned'', due_date = [], priority = ''normal'', raw_line = []\<rparr>"
    by (simp add: sort_two_items)
  moreover have "\<not> owner_unknown \<lparr>task = ''t2'', owner = ''Bob'', due_date = ''2026-03-01'',
         priority = ''normal'', raw_line = []\<rparr>"
    by (simp add: owner_unknown_def lower_def lower_char_def is_upper_az_def)
  moreover have "owner_unknown \<lparr>task = ''t1'', owner = ''unassigned'', due_date = [],
         priority = ''normal'', raw_line = []\<rparr>"
    by (simp add: owner_unknown_def lower_def lower_char_def is_upper_az_def)
  ultimately show ?thesis using len by simp
qed

end
